theory Spec2Isabelle
  imports Complex_Main "HOL-Library.AList" "HOL-Library.Product_Lexorder"
begin

section \<open>Learning from interpretations: the data model\<close>

text \<open>
  The development follows \<^verbatim>\<open>learning/lfi.py\<close>. Python floats are read as the real
  numbers they denote, so \<^verbatim>\<open>+\<close>, \<^verbatim>\<open>-\<close> and \<^verbatim>\<open>/\<close> on them are the exact operations;
  every exception the module can raise is a value of \<open>error\<close>, and a call that raises
  returns \<open>Inl\<close> of it (the state it had reached is dropped: nothing in the module
  catches an exception). A dictionary is an association list in insertion order, the
  order in which Python 3.7 and later iterate; the order decides nothing below but
  which of several exceptions is met first. Calls to the evaluator are taken to return.
\<close>

datatype error = AssertionError | ValueError | IndexError | TypeError | GroundingError | CompileError

text \<open>
  The payload of a \<^verbatim>\<open>Constant\<close>, and the three term classes of \<^verbatim>\<open>problog.logic\<close> the
  module inspects: a \<^verbatim>\<open>Term\<close> has a functor, arguments and an optional probability;
  \<^verbatim>\<open>Var\<close> and \<^verbatim>\<open>Constant\<close> are terms without arguments and without probability whose
  functor is the variable name or the constant's value.
\<close>

datatype pyval = IntC int | FloatC real | StrC string

datatype pterm = Term string "pterm list" "pterm option" | Var string | Constant pyval

fun functor_of :: "pterm \<Rightarrow> pyval" where
  "functor_of (Term f as p) = StrC f"
| "functor_of (Var n) = StrC n"
| "functor_of (Constant c) = c"

fun args_of :: "pterm \<Rightarrow> pterm list" where
  "args_of (Term f as p) = as"
| "args_of (Var n) = []"
| "args_of (Constant c) = []"

fun probability_of :: "pterm \<Rightarrow> pterm option" where
  "probability_of (Term f as p) = p"
| "probability_of (Var n) = None"
| "probability_of (Constant c) = None"

definition arity :: "pterm \<Rightarrow> nat" where
  "arity t = length (args_of t)"

text \<open>
  \<^verbatim>\<open>withProbability(p)\<close> rebuilds the term with probability \<^verbatim>\<open>p\<close>. The module calls
  it on terms that are a \<^verbatim>\<open>Term\<close> only (a \<^verbatim>\<open>Var\<close> or \<^verbatim>\<open>Constant\<close> has no probability
  and never reaches the call); the other two equations make the function total.
\<close>

fun withProbability :: "pterm \<Rightarrow> pterm option \<Rightarrow> pterm" where
  "withProbability (Term f as q) p = Term f as p"
| "withProbability (Var n) p = Var n"
| "withProbability (Constant c) p = Constant c"

text \<open>
  What a traversal of a program yields: a clause, an annotated disjunction, or a bare
  term (a fact).
\<close>

datatype statement = Clause pterm pterm | AnnotatedDisjunction "pterm list" pterm | Fact pterm

subsection \<open>Strings: \<^verbatim>\<open>'%d' % n\<close>, \<^verbatim>\<open>split\<close>, \<^verbatim>\<open>rsplit\<close>, \<^verbatim>\<open>int\<close>\<close>

definition digit_char :: "nat \<Rightarrow> char" where
  "digit_char d = char_of (48 + d)"

fun str_of_nat :: "nat \<Rightarrow> string" where
  "str_of_nat n = (if n < 10 then [digit_char n] else str_of_nat (n div 10) @ [digit_char (n mod 10)])"

declare str_of_nat.simps [simp del]

definition is_digit :: "char \<Rightarrow> bool" where
  "is_digit c = (48 \<le> (of_char c :: nat) \<and> (of_char c :: nat) \<le> 57)"

definition is_space :: "char \<Rightarrow> bool" where
  "is_space c = ((of_char c :: nat) \<in> {9, 10, 11, 12, 13, 32})"

definition strip :: "string \<Rightarrow> string" where
  "strip s = rev (dropWhile is_space (rev (dropWhile is_space s)))"

definition digits_value :: "string \<Rightarrow> nat" where
  "digits_value ds = foldl (\<lambda>n c. 10 * n + (of_char c - 48)) 0 ds"

text \<open>
  \<^verbatim>\<open>int(s)\<close> on a string: surrounding ASCII whitespace is dropped, one sign is allowed, and
  the rest must be a non-empty run of decimal digits. (Python 3.6 and later also accept
  single underscores between digits; \<^verbatim>\<open>_update\<close> only passes text that follows the
  last underscore of a name, which has none.)
\<close>

definition py_int :: "string \<Rightarrow> error + int" where
  "py_int s =
     (let t = strip s;
          neg = (t \<noteq> [] \<and> hd t = CHR ''-'');
          ds = (if t \<noteq> [] \<and> (hd t = CHR ''-'' \<or> hd t = CHR ''+'') then tl t else t)
      in if ds \<noteq> [] \<and> list_all is_digit ds
         then Inr (if neg then - int (digits_value ds) else int (digits_value ds))
         else Inl ValueError)"

text \<open>\<^verbatim>\<open>s.split(c)[0]\<close>: the text before the first \<^verbatim>\<open>c\<close>, all of \<^verbatim>\<open>s\<close> without one.\<close>

definition split_first :: "char \<Rightarrow> string \<Rightarrow> string" where
  "split_first c s = takeWhile (\<lambda>x. x \<noteq> c) s"

text \<open>
  \<^verbatim>\<open>s.rsplit(c, 1)[1]\<close>: the text after the last \<^verbatim>\<open>c\<close>; without a \<^verbatim>\<open>c\<close> the split
  has one element and the index raises.
\<close>

definition rsplit_last :: "char \<Rightarrow> string \<Rightarrow> error + string" where
  "rsplit_last c s =
     (if c \<in> set s then Inr (rev (takeWhile (\<lambda>x. x \<noteq> c) (rev s))) else Inl IndexError)"

text \<open>\<^verbatim>\<open>int(fact.split('(')[0].rsplit('_',1)[1])\<close> of \<^verbatim>\<open>_update\<close>.\<close>

definition fact_index :: "string \<Rightarrow> error + int" where
  "fact_index name =
     (case rsplit_last (CHR ''_'') (split_first (CHR ''('') name) of
        Inl e \<Rightarrow> Inl e
      | Inr t \<Rightarrow> py_int t)"

text \<open>
  The position a Python list of length \<open>n\<close> reads or writes at index \<open>i\<close>: negative
  indices count from the end, anything outside raises.
\<close>

definition list_pos :: "nat \<Rightarrow> int \<Rightarrow> error + nat" where
  "list_pos n i =
     (let j = (if i < 0 then int n + i else i)
      in if 0 \<le> j \<and> j < int n then Inr (nat j) else Inl IndexError)"

subsection \<open>The collaborators and the state of an \<^verbatim>\<open>LFIProblem\<close>\<close>

text \<open>
  An evaluator, as \<^verbatim>\<open>getEvaluator\<close> returns it: the query names with their nodes, the
  value of a node, and the probability of the evidence. A compiled example is its
  \<^verbatim>\<open>getEvaluator\<close>: it takes the parameter source (the problem itself stands as
  semiring, and the evaluator reads the current weights through it) and the evidence.
\<close>

record 'n evaluator =
  getNames :: "(string \<times> 'n) list"
  evaluate :: "'n \<Rightarrow> real"
  evaluateEvidence :: real

type_synonym 'n compiled = "real list \<Rightarrow> (string \<times> bool option) list \<Rightarrow> 'n evaluator"

text \<open>
  What the module takes from outside: the stream of values of \<^verbatim>\<open>random.random()\<close>,
  \<^verbatim>\<open>float\<close> on a string, \<^verbatim>\<open>str\<close> on the atoms and values of an example, and the
  engine's \<^verbatim>\<open>prepare\<close>, \<^verbatim>\<open>ground\<close> and \<^verbatim>\<open>createFrom\<close>, each of which may raise.
\<close>

record ('a, 'v, 'bp, 'gp, 'n) collaborators =
  random_random :: "nat \<Rightarrow> real"
  float_of_str :: "string \<Rightarrow> error + real"
  str_atom :: "'a \<Rightarrow> string"
  str_value :: "'v \<Rightarrow> string"
  engine_prepare :: "statement list \<Rightarrow> error + 'bp"
  ground :: "'bp \<Rightarrow> 'gp option \<Rightarrow> ('a \<times> 'v) list \<Rightarrow> error + 'gp"
  createFrom :: "'gp \<Rightarrow> error + 'n compiled"

record ('a, 'v, 'n) lfi =
  source :: "statement list"
  names :: "pterm list"
  queries :: "pterm list"
  weights :: "real list"
  examples :: "('a \<times> 'v) list list"
  compiled_examples :: "('a list \<times> 'v list \<times> 'n compiled) list option"
  max_iter :: int
  min_improv :: real
  iteration :: int
  draws :: nat

text \<open>\<^verbatim>\<open>__init__\<close>; \<open>draws\<close> counts the values taken from \<^verbatim>\<open>random.random()\<close>.\<close>

definition init :: "statement list \<Rightarrow> ('a \<times> 'v) list list \<Rightarrow> int \<Rightarrow> real \<Rightarrow> ('a, 'v, 'n) lfi" where
  "init src exs mi md =
     \<lparr>source = src, names = [], queries = [], weights = [], examples = exs,
      compiled_examples = None, max_iter = mi, min_improv = md, iteration = 0, draws = 0\<rparr>"

definition count :: "('a, 'v, 'n) lfi \<Rightarrow> nat" where
  "count s = length (weights s)"

section \<open>The model rewriter\<close>

text \<open>\<^verbatim>\<open>float(c)\<close> on a constant is \<^verbatim>\<open>float\<close> of its value.\<close>

definition float_of_const :: "(string \<Rightarrow> error + real) \<Rightarrow> pyval \<Rightarrow> error + real" where
  "float_of_const fs c = (case c of IntC i \<Rightarrow> Inr (of_int i) | FloatC r \<Rightarrow> Inr r | StrC t \<Rightarrow> fs t)"

definition learnable :: "pterm \<Rightarrow> bool" where
  "learnable atom = (case probability_of atom of None \<Rightarrow> False | Some p \<Rightarrow> functor_of p = StrC ''t'')"

definition lfi_fact_of :: "nat \<Rightarrow> pterm \<Rightarrow> pterm" where
  "lfi_fact_of i atom = Term (''lfi_fact_'' @ str_of_nat i) (args_of atom) None"

definition lfi_prob_of :: "nat \<Rightarrow> pterm" where
  "lfi_prob_of i = Term ''lfi'' [Constant (IntC (int i))] None"

text \<open>
  \<^verbatim>\<open>_process_atom\<close>. A probability that is present counts as true in the test
  \<^verbatim>\<open>atom.probability and ...\<close>. Of the calls in the learnable branch only the
  assertion and \<^verbatim>\<open>float\<close> can raise, and both run before the first mutation.
\<close>

definition process_atom ::
  "('a, 'v, 'bp, 'gp, 'n) collaborators \<Rightarrow> ('a, 'v, 'n) lfi \<Rightarrow> pterm
    \<Rightarrow> error + ((pterm \<times> statement list) \<times> ('a, 'v, 'n) lfi)" where
  "process_atom eng s atom =
     (if learnable atom then
        (let p = the (probability_of atom) in
         if length (args_of p) \<noteq> 1 then Inl AssertionError
         else
           let start_value = hd (args_of p);
               lfi_fact = lfi_fact_of (count s) atom;
               lfi_prob = lfi_prob_of (count s);
               replacement = withProbability lfi_fact (Some lfi_prob);
               extra_clauses = [Clause (withProbability atom None) lfi_fact,
                                Fact (Term ''query'' [lfi_fact] None)]
           in (case start_value of
                 Constant c \<Rightarrow>
                   (case float_of_const (float_of_str eng) c of
                      Inl e \<Rightarrow> Inl e
                    | Inr v \<Rightarrow>
                        Inr ((replacement, extra_clauses),
                             s\<lparr>weights := weights s @ [v],
                               queries := queries s @ [lfi_fact],
                               names := names s @ [atom]\<rparr>))
               | _ \<Rightarrow>
                   Inr ((replacement, extra_clauses),
                        s\<lparr>weights := weights s @ [random_random eng (draws s)],
                          draws := Suc (draws s),
                          queries := queries s @ [lfi_fact],
                          names := names s @ [atom]\<rparr>)))
      else Inr ((atom, []), s))"

text \<open>The head loop of the \<^verbatim>\<open>AnnotatedDisjunction\<close> branch of \<^verbatim>\<open>__iter__\<close>.\<close>

fun process_heads ::
  "('a, 'v, 'bp, 'gp, 'n) collaborators \<Rightarrow> ('a, 'v, 'n) lfi \<Rightarrow> pterm list
    \<Rightarrow> error + ((pterm list \<times> statement list) \<times> ('a, 'v, 'n) lfi)" where
  "process_heads eng s [] = Inr (([], []), s)"
| "process_heads eng s (h # hs) =
     (case process_atom eng s h of
        Inl e \<Rightarrow> Inl e
      | Inr ((new_head, extra), s1) \<Rightarrow>
          (case process_heads eng s1 hs of
             Inl e \<Rightarrow> Inl e
           | Inr ((new_heads, extra_all), s2) \<Rightarrow> Inr ((new_head # new_heads, extra @ extra_all), s2)))"

definition is_query :: "pterm \<Rightarrow> bool" where
  "is_query t = (functor_of t = StrC ''query'' \<and> arity t = 1)"

text \<open>One round of the loop of \<^verbatim>\<open>__iter__\<close>: what one source statement yields.\<close>

fun iter_statement ::
  "('a, 'v, 'bp, 'gp, 'n) collaborators \<Rightarrow> ('a, 'v, 'n) lfi \<Rightarrow> statement
    \<Rightarrow> error + (statement list \<times> ('a, 'v, 'n) lfi)" where
  "iter_statement eng s (Clause head body) =
     (if is_query head then Inr ([], s)
      else (case process_atom eng s head of
              Inl e \<Rightarrow> Inl e
            | Inr ((new_head, extra), s1) \<Rightarrow> Inr (Clause new_head body # extra, s1)))"
| "iter_statement eng s (AnnotatedDisjunction heads body) =
     (case process_heads eng s heads of
        Inl e \<Rightarrow> Inl e
      | Inr ((new_heads, extra_all), s1) \<Rightarrow> Inr (AnnotatedDisjunction new_heads body # extra_all, s1))"
| "iter_statement eng s (Fact clause) =
     (if is_query clause then Inr ([], s)
      else (case process_atom eng s clause of
              Inl e \<Rightarrow> Inl e
            | Inr ((new_fact, extra), s1) \<Rightarrow> Inr (Fact new_fact # extra, s1)))"

text \<open>
  A full traversal of \<^verbatim>\<open>__iter__\<close> over a list of source statements: everything it
  yields, in order, and the state it leaves.
\<close>

fun iter_statements ::
  "('a, 'v, 'bp, 'gp, 'n) collaborators \<Rightarrow> ('a, 'v, 'n) lfi \<Rightarrow> statement list
    \<Rightarrow> error + (statement list \<times> ('a, 'v, 'n) lfi)" where
  "iter_statements eng s [] = Inr ([], s)"
| "iter_statements eng s (c # cs) =
     (case iter_statement eng s c of
        Inl e \<Rightarrow> Inl e
      | Inr (out, s1) \<Rightarrow>
          (case iter_statements eng s1 cs of
             Inl e \<Rightarrow> Inl e
           | Inr (outs, s2) \<Rightarrow> Inr (out @ outs, s2)))"

definition iter_program ::
  "('a, 'v, 'bp, 'gp, 'n) collaborators \<Rightarrow> ('a, 'v, 'n) lfi
    \<Rightarrow> error + (statement list \<times> ('a, 'v, 'n) lfi)" where
  "iter_program eng s = iter_statements eng s (source s)"

section \<open>The example compiler\<close>

text \<open>
  \<^verbatim>\<open>result[atoms].append(values)\<close> on a \<^verbatim>\<open>defaultdict(list)\<close>, the dictionary held
  as an association list in insertion order.
\<close>

definition group_append :: "('k \<times> 'w list) list \<Rightarrow> 'k \<Rightarrow> 'w \<Rightarrow> ('k \<times> 'w list) list" where
  "group_append result k v =
     (case map_of result k of
        None \<Rightarrow> result @ [(k, [v])]
      | Some vs \<Rightarrow> AList.update k (vs @ [v]) result)"

text \<open>
  The loop of \<^verbatim>\<open>_process_examples\<close>. \<^verbatim>\<open>zip(*sorted(example))\<close> of an empty example
  is empty, and unpacking it into \<^verbatim>\<open>atoms, values\<close> raises \<^verbatim>\<open>ValueError\<close>.
\<close>

fun group_examples ::
  "('a list \<times> 'v list list) list \<Rightarrow> ('a::linorder \<times> 'v::linorder) list list
    \<Rightarrow> error + ('a list \<times> 'v list list) list" where
  "group_examples result [] = Inr result"
| "group_examples result (example # rest) =
     (let srt = sort example in
      if srt = [] then Inl ValueError
      else group_examples (group_append result (map fst srt) (map snd srt)) rest)"

definition process_examples ::
  "('a::linorder, 'v::linorder, 'n) lfi \<Rightarrow> error + ('a list \<times> 'v list list) list" where
  "process_examples s = group_examples [] (examples s)"

text \<open>
  The inner loop of \<^verbatim>\<open>_compile_examples\<close> over the examples of one group: each ground
  program is handed to the next call of \<^verbatim>\<open>ground\<close>.
\<close>

fun compile_group ::
  "('a, 'v, 'bp, 'gp, 'n) collaborators \<Rightarrow> 'bp \<Rightarrow> 'a list \<Rightarrow> 'gp option \<Rightarrow> 'v list list
    \<Rightarrow> ('a list \<times> 'v list \<times> 'n compiled) list
    \<Rightarrow> error + ('a list \<times> 'v list \<times> 'n compiled) list" where
  "compile_group eng bp atoms gp [] result = Inr result"
| "compile_group eng bp atoms gp (example # rest) result =
     (case ground eng bp gp (zip atoms example) of
        Inl e \<Rightarrow> Inl e
      | Inr ground_program \<Rightarrow>
          (case createFrom eng ground_program of
             Inl e \<Rightarrow> Inl e
           | Inr compiled_program \<Rightarrow>
               compile_group eng bp atoms (Some ground_program) rest
                 (result @ [(atoms, example, compiled_program)])))"

text \<open>The outer loop, over the groups.\<close>

fun compile_groups ::
  "('a, 'v, 'bp, 'gp, 'n) collaborators \<Rightarrow> 'bp \<Rightarrow> ('a list \<times> 'v list list) list
    \<Rightarrow> ('a list \<times> 'v list \<times> 'n compiled) list
    \<Rightarrow> error + ('a list \<times> 'v list \<times> 'n compiled) list" where
  "compile_groups eng bp [] result = Inr result"
| "compile_groups eng bp ((atoms, example_group) # rest) result =
     (case compile_group eng bp atoms None example_group result of
        Inl e \<Rightarrow> Inl e
      | Inr result1 \<Rightarrow> compile_groups eng bp rest result1)"

text \<open>
  \<^verbatim>\<open>_compile_examples\<close>. \<^verbatim>\<open>DefaultEngine().prepare(self)\<close> traverses the problem once
  (\<^verbatim>\<open>__iter__\<close>) and builds the base program from what the traversal yields.
\<close>

definition compile_examples ::
  "('a::linorder, 'v::linorder, 'bp, 'gp, 'n) collaborators \<Rightarrow> ('a, 'v, 'n) lfi
    \<Rightarrow> error + ('a, 'v, 'n) lfi" where
  "compile_examples eng s =
     (case iter_program eng s of
        Inl e \<Rightarrow> Inl e
      | Inr (clauses, s1) \<Rightarrow>
          (case engine_prepare eng clauses of
             Inl e \<Rightarrow> Inl e
           | Inr baseprogram \<Rightarrow>
               (case process_examples s1 of
                  Inl e \<Rightarrow> Inl e
                | Inr groups \<Rightarrow>
                    (case compile_groups eng baseprogram groups [] of
                       Inl e \<Rightarrow> Inl e
                     | Inr result \<Rightarrow> Inr (s1\<lparr>compiled_examples := Some result\<rparr>)))))"

definition prepare ::
  "('a::linorder, 'v::linorder, 'bp, 'gp, 'n) collaborators \<Rightarrow> ('a, 'v, 'n) lfi
    \<Rightarrow> error + ('a, 'v, 'n) lfi" where
  "prepare eng s = compile_examples eng s"

section \<open>The evaluator driver\<close>

definition str2bool :: "string \<Rightarrow> bool option" where
  "str2bool t = (if t = ''true'' then Some True else if t = ''false'' then Some False else None)"

text \<open>\<^verbatim>\<open>dict(pairs)\<close>: a later pair replaces the value of an earlier one with its key.\<close>

definition dict_of :: "('k \<times> 'w) list \<Rightarrow> ('k \<times> 'w) list" where
  "dict_of ps = foldl (\<lambda>d (k, v). AList.update k v d) [] ps"

text \<open>
  The literal \<^verbatim>\<open>1e-6\<close> of \<^verbatim>\<open>_evaluate_examples\<close>, as the number it denotes: the
  double nearest to one millionth, which is \<open>4722366482869645 / 2 ^ 72\<close> and lies
  just below one millionth. The comparison \<^verbatim>\<open>w < 1e-6\<close> is against this number.
\<close>

definition posterior_floor :: real where
  "posterior_floor = 4722366482869645 / 2 ^ 72"

text \<open>The loop over \<^verbatim>\<open>evaluator.getNames(LABEL_QUERY)\<close> that fills \<^verbatim>\<open>pQueries\<close>.\<close>

fun collect_queries :: "'n evaluator \<Rightarrow> (string \<times> real) list \<Rightarrow> (string \<times> 'n) list \<Rightarrow> (string \<times> real) list" where
  "collect_queries ev pQueries [] = pQueries"
| "collect_queries ev pQueries ((name, node) # rest) =
     (let w = evaluate ev node in
      if w < posterior_floor then collect_queries ev (AList.update name 0 pQueries) rest
      else collect_queries ev (AList.update name w pQueries) rest)"

text \<open>\<^verbatim>\<open>dict(zip(map(str,at),map(str2bool,val)))\<close>.\<close>

definition evidence_of ::
  "('a, 'v, 'bp, 'gp, 'n) collaborators \<Rightarrow> 'a list \<Rightarrow> 'v list \<Rightarrow> (string \<times> bool option) list" where
  "evidence_of eng ats val = dict_of (zip (map (str_atom eng) ats) (map (str2bool \<circ> str_value eng) val))"

text \<open>The body of the loop of \<^verbatim>\<open>_evaluate_examples\<close>, for one compiled example.\<close>

definition evaluate_example ::
  "('a, 'v, 'bp, 'gp, 'n) collaborators \<Rightarrow> real list \<Rightarrow> ('a list \<times> 'v list \<times> 'n compiled)
    \<Rightarrow> real \<times> (string \<times> real) list" where
  "evaluate_example eng ws c =
     (case c of (ats, val, cp) \<Rightarrow>
        let evidence = evidence_of eng ats val;
            evaluator = cp ws evidence;
            pQueries = collect_queries evaluator [] (getNames evaluator);
            pEvidence = evaluateEvidence evaluator
        in (pEvidence, pQueries))"

text \<open>
  \<^verbatim>\<open>_evaluate_examples\<close>; before \<^verbatim>\<open>prepare\<close> the compiled examples are \<^verbatim>\<open>None\<close>, and
  the loop over them raises \<^verbatim>\<open>TypeError\<close>.
\<close>

definition evaluate_examples ::
  "('a, 'v, 'bp, 'gp, 'n) collaborators \<Rightarrow> ('a, 'v, 'n) lfi
    \<Rightarrow> error + (real \<times> (string \<times> real) list) list" where
  "evaluate_examples eng s =
     (case compiled_examples s of
        None \<Rightarrow> Inl TypeError
      | Some cs \<Rightarrow> Inr (map (evaluate_example eng (weights s)) cs))"

section \<open>The parameter updater\<close>

text \<open>
  The inner loop of \<^verbatim>\<open>_update\<close> over the items of one example's result: the name is
  parsed to an index, and both lists are read and written there.
\<close>

fun add_facts :: "real list \<times> nat list \<Rightarrow> (string \<times> real) list \<Rightarrow> error + (real list \<times> nat list)" where
  "add_facts acc [] = Inr acc"
| "add_facts (fact_marg, fact_count) ((name, v) # rest) =
     (case fact_index name of
        Inl e \<Rightarrow> Inl e
      | Inr index \<Rightarrow>
          (case list_pos (length fact_marg) index of
             Inl e \<Rightarrow> Inl e
           | Inr i \<Rightarrow>
               add_facts (fact_marg[i := fact_marg ! i + v], fact_count[i := fact_count ! i + 1]) rest))"

text \<open>\<^verbatim>\<open>math.log\<close>: outside the positive numbers it raises \<^verbatim>\<open>ValueError\<close>.\<close>

definition math_log :: "real \<Rightarrow> error + real" where
  "math_log x = (if 0 < x then Inr (ln x) else Inl ValueError)"

text \<open>The outer loop of \<^verbatim>\<open>_update\<close>, over the examples' results.\<close>

fun accumulate ::
  "real list \<times> nat list \<times> real \<Rightarrow> (real \<times> (string \<times> real) list) list
    \<Rightarrow> error + (real list \<times> nat list \<times> real)" where
  "accumulate acc [] = Inr acc"
| "accumulate (fact_marg, fact_count, score) ((pEvidence, result) # rest) =
     (case add_facts (fact_marg, fact_count) result of
        Inl e \<Rightarrow> Inl e
      | Inr (fact_marg1, fact_count1) \<Rightarrow>
          (case math_log pEvidence of
             Inl e \<Rightarrow> Inl e
           | Inr l \<Rightarrow> accumulate (fact_marg1, fact_count1, score + l) rest))"

text \<open>The last loop of \<^verbatim>\<open>_update\<close>: the weights of the slots that were counted.\<close>

definition new_weights :: "real list \<Rightarrow> real list \<Rightarrow> nat list \<Rightarrow> real list" where
  "new_weights ws fact_marg fact_count =
     map (\<lambda>index. if fact_count ! index > 0
                   then fact_marg ! index / real (fact_count ! index)
                   else ws ! index) [0 ..< length ws]"

definition update ::
  "('a, 'v, 'n) lfi \<Rightarrow> (real \<times> (string \<times> real) list) list \<Rightarrow> error + (real \<times> ('a, 'v, 'n) lfi)" where
  "update s results =
     (case accumulate (replicate (count s) 0, replicate (count s) 0, 0) results of
        Inl e \<Rightarrow> Inl e
      | Inr (fact_marg, fact_count, score) \<Rightarrow>
          Inr (score, s\<lparr>weights := new_weights (weights s) fact_marg fact_count\<rparr>))"

section \<open>The convergence loop\<close>

definition step ::
  "('a, 'v, 'bp, 'gp, 'n) collaborators \<Rightarrow> ('a, 'v, 'n) lfi \<Rightarrow> error + (real \<times> ('a, 'v, 'n) lfi)" where
  "step eng s =
     (let s1 = s\<lparr>iteration := iteration s + 1\<rparr> in
      case evaluate_examples eng s1 of
        Inl e \<Rightarrow> Inl e
      | Inr results \<Rightarrow> update s1 results)"

text \<open>
  The \<^verbatim>\<open>while\<close> loop of \<^verbatim>\<open>run\<close>, from any values of its three variables (the state,
  \<^verbatim>\<open>delta\<close> and \<^verbatim>\<open>prev_score\<close>). Every round raises \<^verbatim>\<open>iteration\<close> by one towards
  \<^verbatim>\<open>max_iter\<close>, which is the termination argument.
\<close>

function run_loop ::
  "('a, 'v, 'bp, 'gp, 'n) collaborators \<Rightarrow> ('a, 'v, 'n) lfi \<Rightarrow> real \<Rightarrow> real
    \<Rightarrow> error + (real \<times> ('a, 'v, 'n) lfi)" where
  "run_loop eng s delta prev_score =
     (if iteration s < max_iter s \<and> delta > min_improv s then
        (case step eng s of
           Inl e \<Rightarrow> Inl e
         | Inr (score, s1) \<Rightarrow> run_loop eng s1 (score - prev_score) score)
      else Inr (prev_score, s))"
  by pat_completeness auto
termination
proof (relation "measure (\<lambda>(eng, s, delta, prev_score). nat (max_iter s - iteration s))")
  show "wf (measure (\<lambda>(eng, s, delta, prev_score). nat (max_iter s - iteration s)))"
    by simp
next
  fix eng :: "('a, 'v, 'bp, 'gp, 'n) collaborators"
  fix s s1 :: "('a, 'v, 'n) lfi" and delta prev_score score :: real and x2
  assume "iteration s < max_iter s \<and> min_improv s < delta"
    and "step eng s = Inr x2" and "(score, s1) = x2"
  then have "iteration s1 = iteration s + 1 \<and> max_iter s1 = max_iter s"
    by (auto simp: step_def update_def Let_def split: sum.splits prod.splits)
  with \<open>iteration s < max_iter s \<and> min_improv s < delta\<close>
  show "((eng, s1, score - prev_score, score), (eng, s, delta, prev_score))
          \<in> measure (\<lambda>(eng, s, delta, prev_score). nat (max_iter s - iteration s))"
    by simp
qed

declare run_loop.simps [simp del]

definition run ::
  "('a::linorder, 'v::linorder, 'bp, 'gp, 'n) collaborators \<Rightarrow> ('a, 'v, 'n) lfi
    \<Rightarrow> error + (real \<times> ('a, 'v, 'n) lfi)" where
  "run eng s =
     (case prepare eng s of
        Inl e \<Rightarrow> Inl e
      | Inr s1 \<Rightarrow> run_loop eng s1 1000 (- 10000000000))"

text \<open>
  The loop body applied \<open>k\<close> times with no test in between, on the triple of the loop's
  variables; \<open>continues\<close> is the loop test. They describe which test of \<open>run_loop\<close> is
  the first to fail.
\<close>

definition continues :: "('a, 'v, 'n) lfi \<times> real \<times> real \<Rightarrow> bool" where
  "continues c = (case c of (s, delta, prev_score) \<Rightarrow> iteration s < max_iter s \<and> delta > min_improv s)"

fun rounds ::
  "('a, 'v, 'bp, 'gp, 'n) collaborators \<Rightarrow> nat \<Rightarrow> ('a, 'v, 'n) lfi \<times> real \<times> real
    \<Rightarrow> error + (('a, 'v, 'n) lfi \<times> real \<times> real)" where
  "rounds eng 0 c = Inr c"
| "rounds eng (Suc k) (s, delta, prev_score) =
     (case step eng s of
        Inl e \<Rightarrow> Inl e
      | Inr (score, s1) \<Rightarrow> rounds eng k (s1, score - prev_score, score))"

text \<open>
  Modelled from the spec: the string rendering of a term (\<^verbatim>\<open>str\<close> of a
  \<^verbatim>\<open>problog.logic.Term\<close>, which is not part of this module), under which the
  evaluator reports a query: the functor, followed, when the term has arguments, by
  their rendering in parentheses, as in \<^verbatim>\<open>lfi_fact_0(X)\<close>. How the arguments
  themselves are rendered is left open (\<open>ra\<close>).
\<close>

definition str_term :: "(pterm list \<Rightarrow> string) \<Rightarrow> pterm \<Rightarrow> string" where
  "str_term ra t =
     (case t of
        Term f as p \<Rightarrow> (if as = [] then f else f @ ''('' @ ra as @ '')'')
      | Var n \<Rightarrow> n
      | Constant c \<Rightarrow> ra [Constant c])"

section \<open>Concrete problems\<close>

text \<open>
  A compiled example with three queries whose posteriors are the double next below
  the floor, the floor itself and a weight above it, and a problem that holds it.
\<close>

definition floor_compiled :: "nat compiled" where
  "floor_compiled ws evidence =
     \<lparr>getNames = [(''lfi_fact_0(a)'', 0), (''lfi_fact_0(b)'', 1), (''lfi_fact_1'', 2)],
      evaluate = (\<lambda>node. if node = 0 then 4722366482869644 / 2 ^ 72
                         else if node = 1 then 4722366482869645 / 2 ^ 72 else ws ! 1),
      evaluateEvidence = 1 / 4\<rparr>"

definition floor_problem :: "(nat, bool, nat) lfi" where
  "floor_problem =
     \<lparr>source = [], names = [], queries = [], weights = [1 / 2, 3 / 4], examples = [[(7, True)]],
      compiled_examples = Some [([7], [True], floor_compiled)],
      max_iter = 5, min_improv = 1, iteration = 0, draws = 0\<rparr>"

section \<open>What an update round is measured against\<close>

text \<open>
  The slot a reported name is attributed to by \<^verbatim>\<open>_update\<close>: the parsed index, read
  as a position of the two lists of length \<open>n\<close>.
\<close>

definition slot_of :: "nat \<Rightarrow> string \<Rightarrow> error + nat" where
  "slot_of n name = (case fact_index name of Inl e \<Rightarrow> Inl e | Inr index \<Rightarrow> list_pos n index)"

definition resolves :: "nat \<Rightarrow> string \<Rightarrow> bool" where
  "resolves n name = (case fact_index name of Inl e \<Rightarrow> False | Inr index \<Rightarrow> (case list_pos n index of Inl e \<Rightarrow> False | Inr i \<Rightarrow> True))"

text \<open>
  The values reported for slot \<open>i\<close>: in the items of one result, and in all results of
  a round, in the order \<^verbatim>\<open>_update\<close> meets them.
\<close>

definition item_values :: "nat \<Rightarrow> nat \<Rightarrow> (string \<times> real) list \<Rightarrow> real list" where
  "item_values n i items = map snd (filter (\<lambda>(name, v). slot_of n name = Inr i) items)"

definition slot_values :: "nat \<Rightarrow> nat \<Rightarrow> (real \<times> (string \<times> real) list) list \<Rightarrow> real list" where
  "slot_values n i results = item_values n i (concat (map snd results))"

text \<open>Every name of every result parses and lies within the \<open>n\<close> slots.\<close>

definition names_resolve :: "nat \<Rightarrow> (real \<times> (string \<times> real) list) list \<Rightarrow> bool" where
  "names_resolve n results = list_all (\<lambda>(pEvidence, result). list_all (\<lambda>(name, v). resolves n name) result) results"

text \<open>
  The divisor in the words of the specification: the count of examples that reported a
  value for slot \<open>i\<close>.
\<close>

definition examples_reporting :: "nat \<Rightarrow> nat \<Rightarrow> (real \<times> (string \<times> real) list) list \<Rightarrow> nat" where
  "examples_reporting n i results =
     length (filter (\<lambda>(pEvidence, result). list_ex (\<lambda>(name, v). slot_of n name = Inr i) result) results)"

section \<open>Concrete rounds\<close>

text \<open>
  The results of two examples over a program whose slot \<open>0\<close> has the two ground
  instances \<^verbatim>\<open>lfi_fact_0(a)\<close> and \<^verbatim>\<open>lfi_fact_0(b)\<close>; and the same with an example
  whose evidence has probability zero.
\<close>

definition mean_results :: "(real \<times> (string \<times> real) list) list" where
  "mean_results =
     [(1, [(''lfi_fact_0(a)'', 1 / 4), (''lfi_fact_0(b)'', 3 / 4)]),
      (1, [(''lfi_fact_0(a)'', 1)])]"

definition zero_results :: "(real \<times> (string \<times> real) list) list" where
  "zero_results =
     [(1, [(''lfi_fact_0(a)'', 1 / 4), (''lfi_fact_0(b)'', 3 / 4)]),
      (0, [(''lfi_fact_0(a)'', 0)])]"

section \<open>A concrete run\<close>

text \<open>
  The program \<^verbatim>\<open>t(1.0)::p(x).\<close> with the single example \<^verbatim>\<open>evidence(p(x), true)\<close>.
  Under that evidence the probability of the evidence is the weight of slot \<open>0\<close> and
  the posterior of \<^verbatim>\<open>lfi_fact_0(x)\<close> is \<open>1\<close>, which is what \<open>certain_compiled\<close>
  answers. The engine of \<open>demo_engine\<close> grounds an example only when it constrains
  atom \<open>0\<close>, and its random source returns \<open>0.0\<close>. \<open>certain_prepared\<close> is the state
  that \<^verbatim>\<open>prepare\<close> leaves.
\<close>

definition certain_compiled :: "nat compiled" where
  "certain_compiled ws evidence =
     \<lparr>getNames = [(''lfi_fact_0(x)'', 0)], evaluate = (\<lambda>node. 1), evaluateEvidence = ws ! 0\<rparr>"

definition demo_engine :: "(nat, bool, statement list, unit, nat) collaborators" where
  "demo_engine =
     \<lparr>random_random = (\<lambda>n. 0),
      float_of_str = (\<lambda>t. Inl ValueError),
      str_atom = (\<lambda>a. if a = 0 then ''p(x)'' else ''q(x)''),
      str_value = (\<lambda>b. if b then ''true'' else ''false''),
      engine_prepare = Inr,
      ground = (\<lambda>bp gp evidence. if 0 \<in> fst ` set evidence then Inr () else Inl GroundingError),
      createFrom = (\<lambda>g. Inr certain_compiled)\<rparr>"

definition certain_fact :: pterm where
  "certain_fact = Term ''p'' [Term ''x'' [] None] (Some (Term ''t'' [Constant (FloatC 1)] None))"

definition certain_problem :: "(nat, bool, nat) lfi" where
  "certain_problem = init [Fact certain_fact] [[(0, True)]] 5 1"

definition certain_prepared :: "(nat, bool, nat) lfi" where
  "certain_prepared =
     certain_problem\<lparr>weights := [1],
       queries := [Term ''lfi_fact_0'' [Term ''x'' [] None] None],
       names := [certain_fact],
       compiled_examples := Some [([0], [True], certain_compiled)]\<rparr>"

text \<open>
  The same program and example run with \<^verbatim>\<open>min_improv = 1000\<close>, the value \<^verbatim>\<open>delta\<close>
  has before the first round, and the state \<^verbatim>\<open>prepare\<close> leaves of it.
\<close>

definition sentinel_problem :: "(nat, bool, nat) lfi" where
  "sentinel_problem = init [Fact certain_fact] [[(0, True)]] 5 1000"

definition sentinel_prepared :: "(nat, bool, nat) lfi" where
  "sentinel_prepared =
     sentinel_problem\<lparr>weights := [1],
       queries := [Term ''lfi_fact_0'' [Term ''x'' [] None] None],
       names := [certain_fact],
       compiled_examples := Some [([0], [True], certain_compiled)]\<rparr>"

section \<open>What a traversal is measured against\<close>

text \<open>
  The atoms of a source statement that \<^verbatim>\<open>__iter__\<close> hands to \<^verbatim>\<open>_process_atom\<close> (a
  clause or fact \<^verbatim>\<open>query/1\<close> is dropped before), and the learnable atoms a traversal
  of a program discovers, in order.
\<close>

fun processed_atoms :: "statement \<Rightarrow> pterm list" where
  "processed_atoms (Clause head body) = (if is_query head then [] else [head])"
| "processed_atoms (AnnotatedDisjunction heads body) = heads"
| "processed_atoms (Fact clause) = (if is_query clause then [] else [clause])"

definition learnable_atoms :: "statement list \<Rightarrow> pterm list" where
  "learnable_atoms prog = filter learnable (concat (map processed_atoms prog))"


section \<open>What the grouping is measured against\<close>

text \<open>
  The value tuples of the examples whose sorted atom tuple is \<open>k\<close>, in the order of
  the example list.
\<close>

definition values_for :: "'a list \<Rightarrow> ('a::linorder \<times> 'v::linorder) list list \<Rightarrow> 'v list list" where
  "values_for k exs = map (\<lambda>e. map snd (sort e)) (filter (\<lambda>e. map fst (sort e) = k) exs)"

text \<open>
  The concrete program with a second example that the engine of \<open>demo_engine\<close> cannot
  ground, and with a second example that is empty.
\<close>

definition ungroundable_problem :: "(nat, bool, nat) lfi" where
  "ungroundable_problem = init [Fact certain_fact] [[(0, True)], [(1, True)]] 5 1"

definition empty_example_problem :: "(nat, bool, nat) lfi" where
  "empty_example_problem = init [Fact certain_fact] [[(0, True)], []] 5 1"

section \<open>Properties\<close>

subsection \<open>Shared facts\<close>

lemma update_keeps:
  "update s results = Inr (score, s') \<Longrightarrow>
     iteration s' = iteration s \<and> max_iter s' = max_iter s \<and> min_improv s' = min_improv s
     \<and> compiled_examples s' = compiled_examples s"
  by (auto simp: update_def split: sum.splits prod.splits)

lemma step_keeps:
  "step eng s = Inr (score, s') \<Longrightarrow>
     iteration s' = iteration s + 1 \<and> max_iter s' = max_iter s \<and> min_improv s' = min_improv s
     \<and> compiled_examples s' = compiled_examples s"
  by (auto simp: step_def Let_def split: sum.splits dest!: update_keeps)

subsection \<open>Names of synthetic facts\<close>

lemma of_char_digit_char: "d < 10 \<Longrightarrow> (of_char (digit_char d) :: nat) = 48 + d"
  by (simp add: digit_char_def)

lemma is_digit_digit_char: "d < 10 \<Longrightarrow> is_digit (digit_char d)"
  by (simp add: is_digit_def of_char_digit_char)

lemma str_of_nat_nonempty: "str_of_nat n \<noteq> []"
  by (subst str_of_nat.simps) simp

lemma str_of_nat_digits: "list_all is_digit (str_of_nat n)"
proof (induction n rule: str_of_nat.induct)
  case (1 n)
  show ?case
  proof (cases "n < 10")
    case True
    then show ?thesis by (subst str_of_nat.simps) (simp add: is_digit_digit_char)
  next
    case False
    with 1 show ?thesis by (subst str_of_nat.simps) (simp add: is_digit_digit_char)
  qed
qed

lemma digits_value_snoc: "digits_value (ds @ [c]) = 10 * digits_value ds + (of_char c - 48)"
  by (simp add: digits_value_def)

lemma digits_value_str_of_nat: "digits_value (str_of_nat n) = n"
proof (induction n rule: str_of_nat.induct)
  case (1 n)
  show ?case
  proof (cases "n < 10")
    case True
    then show ?thesis
      by (subst str_of_nat.simps) (simp add: digits_value_def of_char_digit_char)
  next
    case False
    with 1 show ?thesis
      by (subst str_of_nat.simps) (simp add: digits_value_snoc of_char_digit_char)
  qed
qed

lemma digit_not_space: "is_digit c \<Longrightarrow> \<not> is_space c"
  by (auto simp: is_digit_def is_space_def)

lemma digit_not_special: "is_digit c \<Longrightarrow> c \<noteq> CHR ''_'' \<and> c \<noteq> CHR ''('' \<and> c \<noteq> CHR ''-'' \<and> c \<noteq> CHR ''+''"
  by (auto simp: is_digit_def)

lemma strip_digits: "ds \<noteq> [] \<Longrightarrow> list_all is_digit ds \<Longrightarrow> strip ds = ds"
proof -
  assume ne: "ds \<noteq> []" and dg: "list_all is_digit ds"
  then have h: "\<not> is_space (hd ds)" and l: "\<not> is_space (last ds)"
    by (auto simp: list_all_iff digit_not_space)
  from ne h have 1: "dropWhile is_space ds = ds" by (cases ds) auto
  from ne l have 2: "dropWhile is_space (rev ds) = rev ds"
    by (cases "rev ds") (auto simp: last_rev [symmetric] hd_rev)
  show ?thesis by (simp add: strip_def 1 2)
qed

lemma py_int_digits: "ds \<noteq> [] \<Longrightarrow> list_all is_digit ds \<Longrightarrow> py_int ds = Inr (int (digits_value ds))"
proof -
  assume ne: "ds \<noteq> []" and dg: "list_all is_digit ds"
  then have "is_digit (hd ds)" by (cases ds) auto
  then have "hd ds \<noteq> CHR ''-''" "hd ds \<noteq> CHR ''+''" using digit_not_special by blast+
  with ne dg show ?thesis by (simp add: py_int_def strip_digits Let_def)
qed

lemma py_int_str_of_nat: "py_int (str_of_nat n) = Inr (int n)"
  by (simp add: py_int_digits str_of_nat_nonempty str_of_nat_digits digits_value_str_of_nat)

lemma rsplit_last_lfi_fact: "rsplit_last (CHR ''_'') (''lfi_fact_'' @ str_of_nat n) = Inr (str_of_nat n)"
proof -
  have "\<forall>c \<in> set (str_of_nat n). c \<noteq> CHR ''_''"
    using str_of_nat_digits [of n] digit_not_special by (auto simp: list_all_iff)
  then have "takeWhile (\<lambda>x. x \<noteq> CHR ''_'') (rev (str_of_nat n) @ rev ''lfi_fact_'') = rev (str_of_nat n)"
    by (subst takeWhile_append2) auto
  then show ?thesis by (simp add: rsplit_last_def)
qed

lemma split_first_lfi_fact:
  "split_first (CHR ''('') (''lfi_fact_'' @ str_of_nat n) = ''lfi_fact_'' @ str_of_nat n"
  "split_first (CHR ''('') (''lfi_fact_'' @ str_of_nat n @ ''('' @ r) = ''lfi_fact_'' @ str_of_nat n"
proof -
  have d: "\<forall>c \<in> set (str_of_nat n). c \<noteq> CHR ''(''"
    using str_of_nat_digits [of n] digit_not_special by (auto simp: list_all_iff)
  then have a: "\<forall>c \<in> set (''lfi_fact_'' @ str_of_nat n). c \<noteq> CHR ''(''" by auto
  show "split_first (CHR ''('') (''lfi_fact_'' @ str_of_nat n) = ''lfi_fact_'' @ str_of_nat n"
    unfolding split_first_def using a by (subst takeWhile_eq_all_conv [THEN iffD2]) auto
  have "takeWhile (\<lambda>x. x \<noteq> CHR ''('') ((''lfi_fact_'' @ str_of_nat n) @ (''('' @ r)) = ''lfi_fact_'' @ str_of_nat n"
    using a by (subst takeWhile_append2) auto
  then show "split_first (CHR ''('') (''lfi_fact_'' @ str_of_nat n @ ''('' @ r) = ''lfi_fact_'' @ str_of_nat n"
    by (simp add: split_first_def)
qed

lemma fact_index_lfi_fact:
  "fact_index (str_term ra (lfi_fact_of i atom)) = Inr (int i)"
  by (simp add: str_term_def lfi_fact_of_def fact_index_def split_first_lfi_fact
      rsplit_last_lfi_fact py_int_str_of_nat del: append.simps)

text \<open>
  C9. For every slot index \<open>i\<close>, every source atom and every rendering of its
  arguments, parsing the name of the query \<^verbatim>\<open>lfi_fact_i(args)\<close> the way \<^verbatim>\<open>_update\<close>
  does (the text before the first \<^verbatim>\<open>(\<close>, then what follows the last \<^verbatim>\<open>_\<close>, then
  \<^verbatim>\<open>int\<close>) gives \<open>i\<close> again; and a posterior reported under that name is added to
  slot \<open>i\<close> of the sums and counted in slot \<open>i\<close>, whenever the slot exists.
\<close>

theorem query_name_roundtrip:
  "fact_index (str_term ra (lfi_fact_of i atom)) = Inr (int i) \<and>
   (i < length fact_marg \<longrightarrow>
      add_facts (fact_marg, fact_count) [(str_term ra (lfi_fact_of i atom), v)]
        = Inr (fact_marg[i := fact_marg ! i + v], fact_count[i := fact_count ! i + 1]))"
  by (simp add: fact_index_lfi_fact list_pos_def)

theorem query_name_roundtrip_witness:
  "(3::nat) < length [0, 0, 0, 0 :: real] \<and>
   str_term (\<lambda>as. ''f(x_1),Y'') (lfi_fact_of 3 (Term ''p'' [Term ''f'' [Constant (StrC ''x_1'')] None, Var ''Y''] None))
     = ''lfi_fact_3(f(x_1),Y)'' \<and>
   fact_index ''lfi_fact_3(f(x_1),Y)'' = Inr 3 \<and>
   add_facts ([0, 0, 0, 0], [0, 0, 0, 0]) [(''lfi_fact_3(f(x_1),Y)'', 1 / 2)]
     = Inr ([0, 0, 0, 1 / 2], [0, 0, 0, 1])"
proof -
  have r: "str_term (\<lambda>as. ''f(x_1),Y'') (lfi_fact_of 3 (Term ''p'' [Term ''f'' [Constant (StrC ''x_1'')] None, Var ''Y''] None))
     = ''lfi_fact_3(f(x_1),Y)''"
    by code_simp
  have lt: "(3::nat) < length [0, 0, 0, 0 :: real]" by simp
  note t = query_name_roundtrip [of "\<lambda>as. ''f(x_1),Y''" 3
        "Term ''p'' [Term ''f'' [Constant (StrC ''x_1'')] None, Var ''Y''] None"
        "[0, 0, 0, 0 :: real]" "[0, 0, 0, 0]" "1 / 2", unfolded r]
  from t have a: "fact_index ''lfi_fact_3(f(x_1),Y)'' = Inr 3"
    by (simp del: add_facts.simps)
  from t lt have "add_facts ([0, 0, 0, 0], [0, 0, 0, 0]) [(''lfi_fact_3(f(x_1),Y)'', 1 / 2)]
     = Inr ([0, 0, 0, 0 :: real][3 := [0, 0, 0, 0] ! 3 + 1 / 2], [0, 0, 0, 0][3 := [0, 0, 0, 0] ! 3 + 1])"
    by blast
  then have b: "add_facts ([0, 0, 0, 0], [0, 0, 0, 0]) [(''lfi_fact_3(f(x_1),Y)'', 1 / 2)]
     = Inr ([0, 0, 0, 1 / 2], [0, 0, 0, 1])"
    by (simp del: add_facts.simps add: numeral_3_eq_3)
  from r lt a b show ?thesis by blast
qed

subsection \<open>The evaluator driver's output\<close>

lemma collect_queries_map_of:
  "map_of (collect_queries ev acc qs) name =
     (case map_of (rev qs) name of
        None \<Rightarrow> map_of acc name
      | Some node \<Rightarrow> Some (if evaluate ev node < posterior_floor then 0 else evaluate ev node))"
proof (induction qs arbitrary: acc)
  case Nil
  then show ?case by simp
next
  case (Cons q qs)
  obtain n node where q: "q = (n, node)" by (cases q)
  show ?case
    by (simp add: q Let_def Cons.IH update_conv' map_add_def split: option.splits)
qed

lemma collect_queries_distinct:
  "distinct (map fst acc) \<Longrightarrow> distinct (map fst (collect_queries ev acc qs))"
proof (induction qs arbitrary: acc)
  case Nil
  then show ?case by simp
next
  case (Cons q qs)
  obtain n node where q: "q = (n, node)" by (cases q)
  show ?case using Cons.prems
    by (simp add: q Let_def Cons.IH distinct_update)
qed

text \<open>
  C5. In the output of \<^verbatim>\<open>_evaluate_examples\<close> there is one pair per compiled
  example; its dictionary has each query name once, and the value under a name is
  exactly \<open>0\<close> when the posterior evaluated for that name is strictly below \<^verbatim>\<open>1e-6\<close>
  (the double that the literal denotes, \<open>posterior_floor\<close>), and the posterior
  itself, unchanged, when it is \<^verbatim>\<open>1e-6\<close> or more. (Should the evaluator list a
  name twice, the dictionary keeps the later entry.)
\<close>

theorem posterior_floor_applied:
  assumes "compiled_examples s = Some cs"
  shows "\<exists>results. evaluate_examples eng s = Inr results \<and> length results = length cs \<and>
     (\<forall>k < length cs. case cs ! k of (ats, val, cp) \<Rightarrow>
        let ev = cp (weights s) (evidence_of eng ats val) in
        fst (results ! k) = evaluateEvidence ev \<and> distinct (map fst (snd (results ! k))) \<and>
        (\<forall>name. map_of (snd (results ! k)) name =
           (case map_of (rev (getNames ev)) name of
              None \<Rightarrow> None
            | Some node \<Rightarrow> Some (if evaluate ev node < posterior_floor then 0 else evaluate ev node))))"
proof -
  have r: "evaluate_examples eng s = Inr (map (evaluate_example eng (weights s)) cs)"
    using assms by (simp add: evaluate_examples_def)
  have "\<forall>k < length cs. case cs ! k of (ats, val, cp) \<Rightarrow>
        let ev = cp (weights s) (evidence_of eng ats val) in
        fst (map (evaluate_example eng (weights s)) cs ! k) = evaluateEvidence ev \<and>
        distinct (map fst (snd (map (evaluate_example eng (weights s)) cs ! k))) \<and>
        (\<forall>name. map_of (snd (map (evaluate_example eng (weights s)) cs ! k)) name =
           (case map_of (rev (getNames ev)) name of
              None \<Rightarrow> None
            | Some node \<Rightarrow> Some (if evaluate ev node < posterior_floor then 0 else evaluate ev node)))"
  proof (intro allI impI)
    fix k assume k: "k < length cs"
    obtain ats val cp where c: "cs ! k = (ats, val, cp)" by (cases "cs ! k")
    show "case cs ! k of (ats, val, cp) \<Rightarrow>
        let ev = cp (weights s) (evidence_of eng ats val) in
        fst (map (evaluate_example eng (weights s)) cs ! k) = evaluateEvidence ev \<and>
        distinct (map fst (snd (map (evaluate_example eng (weights s)) cs ! k))) \<and>
        (\<forall>name. map_of (snd (map (evaluate_example eng (weights s)) cs ! k)) name =
           (case map_of (rev (getNames ev)) name of
              None \<Rightarrow> None
            | Some node \<Rightarrow> Some (if evaluate ev node < posterior_floor then 0 else evaluate ev node)))"
      using k
      by (simp add: c evaluate_example_def Let_def collect_queries_map_of collect_queries_distinct
          split: option.splits)
  qed
  with r show ?thesis by simp
qed

theorem posterior_floor_applied_witness:
  "compiled_examples floor_problem = Some [([7], [True], floor_compiled)] \<and>
   (\<exists>results. evaluate_examples demo_engine floor_problem = Inr results \<and> length results = 1 \<and>
      fst (results ! 0) = 1 / 4 \<and>
      map_of (snd (results ! 0)) ''lfi_fact_0(a)'' = Some 0 \<and>
      map_of (snd (results ! 0)) ''lfi_fact_0(b)'' = Some (4722366482869645 / 2 ^ 72) \<and>
      map_of (snd (results ! 0)) ''lfi_fact_1'' = Some (3 / 4))"
proof -
  have h: "compiled_examples floor_problem = Some [([7], [True], floor_compiled)]"
    by (simp add: floor_problem_def)
  from posterior_floor_applied [OF h, of demo_engine]
  obtain results where r: "evaluate_examples demo_engine floor_problem = Inr results"
    and l: "length results = 1"
    and a: "\<forall>k < length [([7::nat], [True], floor_compiled)].
       case [([7::nat], [True], floor_compiled)] ! k of (ats, val, cp) \<Rightarrow>
        let ev = cp (weights floor_problem) (evidence_of demo_engine ats val) in
        fst (results ! k) = evaluateEvidence ev \<and> distinct (map fst (snd (results ! k))) \<and>
        (\<forall>name. map_of (snd (results ! k)) name =
           (case map_of (rev (getNames ev)) name of
              None \<Rightarrow> None
            | Some node \<Rightarrow> Some (if evaluate ev node < posterior_floor then 0 else evaluate ev node)))"
    by auto
  from a have b: "fst (results ! 0) = 1 / 4 \<and>
      (\<forall>name. map_of (snd (results ! 0)) name =
           (case map_of (rev (getNames (floor_compiled [1 / 2, 3 / 4] (evidence_of demo_engine [7] [True])))) name of
              None \<Rightarrow> None
            | Some node \<Rightarrow> Some (if evaluate (floor_compiled [1 / 2, 3 / 4] (evidence_of demo_engine [7] [True])) node < posterior_floor then 0
                 else evaluate (floor_compiled [1 / 2, 3 / 4] (evidence_of demo_engine [7] [True])) node)))"
    by (simp add: Let_def floor_problem_def floor_compiled_def)
  then have "fst (results ! 0) = 1 / 4 \<and>
      map_of (snd (results ! 0)) ''lfi_fact_0(a)'' = Some 0 \<and>
      map_of (snd (results ! 0)) ''lfi_fact_0(b)'' = Some (4722366482869645 / 2 ^ 72) \<and>
      map_of (snd (results ! 0)) ''lfi_fact_1'' = Some (3 / 4)"
    by (simp add: floor_compiled_def posterior_floor_def)
  with h r l show ?thesis by blast
qed

subsection \<open>The parameter updater\<close>

lemma list_pos_less: "list_pos n index = Inr j \<Longrightarrow> j < n"
  by (auto simp: list_pos_def Let_def split: if_splits)

lemma add_facts_char:
  "add_facts (fm, fc) items = Inr (fm', fc') \<Longrightarrow> length fc = length fm \<Longrightarrow>
   length fm' = length fm \<and> length fc' = length fm \<and>
   (\<forall>i < length fm. fm' ! i = fm ! i + sum_list (item_values (length fm) i items) \<and>
                     fc' ! i = fc ! i + length (item_values (length fm) i items))"
proof (induction items arbitrary: fm fc)
  case Nil
  then show ?case by (simp add: item_values_def)
next
  case (Cons it items)
  obtain name v where it: "it = (name, v)" by (cases it)
  from Cons.prems(1) obtain index j where
    fi: "fact_index name = Inr index" and lp: "list_pos (length fm) index = Inr j"
    and rest: "add_facts (fm[j := fm ! j + v], fc[j := fc ! j + 1]) items = Inr (fm', fc')"
    by (auto simp: it split: sum.splits)
  have j: "j < length fm" using lp by (rule list_pos_less)
  have so: "slot_of (length fm) name = Inr j" by (simp add: slot_of_def fi lp)
  from Cons.IH [OF rest] Cons.prems(2)
  have ih: "length fm' = length fm \<and> length fc' = length fm \<and>
   (\<forall>i < length fm. fm' ! i = (fm[j := fm ! j + v]) ! i + sum_list (item_values (length fm) i items) \<and>
                     fc' ! i = (fc[j := fc ! j + 1]) ! i + length (item_values (length fm) i items))"
    by simp
  show ?case
  proof (intro conjI allI impI)
    show "length fm' = length fm" using ih by simp
    show "length fc' = length fm" using ih by simp
  next
    fix i assume i: "i < length fm"
    show "fm' ! i = fm ! i + sum_list (item_values (length fm) i (it # items))"
      using ih i j by (cases "i = j") (auto simp: it item_values_def so)
    show "fc' ! i = fc ! i + length (item_values (length fm) i (it # items))"
      using ih i j Cons.prems(2) by (cases "i = j") (auto simp: it item_values_def so)
  qed
qed

lemma add_facts_ok:
  "list_all (\<lambda>(name, v). resolves n name) items \<Longrightarrow> length fm = n \<Longrightarrow>
   \<exists>fm' fc'. add_facts (fm, fc) items = Inr (fm', fc')"
proof (induction items arbitrary: fm fc)
  case Nil
  then show ?case by simp
next
  case (Cons it items)
  obtain name v where it: "it = (name, v)" by (cases it)
  from Cons.prems obtain index j where fi: "fact_index name = Inr index" and lp: "list_pos (length fm) index = Inr j"
    by (auto simp: it resolves_def split: sum.splits)
  from Cons.prems have a: "list_all (\<lambda>(name, v). resolves n name) items"
    and b: "length (fm[j := fm ! j + v]) = n"
    by (simp_all add: it)
  from Cons.IH [OF a b, of "fc[j := fc ! j + 1]"]
  show ?case by (simp add: it fi lp)
qed

lemma accumulate_char:
  "accumulate (fm, fc, sc) results = Inr (fm', fc', sc') \<Longrightarrow> length fc = length fm \<Longrightarrow>
   length fm' = length fm \<and> length fc' = length fm \<and>
   sc' = sc + sum_list (map (\<lambda>(pEvidence, result). ln pEvidence) results) \<and>
   list_all (\<lambda>(pEvidence, result). 0 < pEvidence) results \<and>
   (\<forall>i < length fm. fm' ! i = fm ! i + sum_list (slot_values (length fm) i results) \<and>
                     fc' ! i = fc ! i + length (slot_values (length fm) i results))"
proof (induction results arbitrary: fm fc sc)
  case Nil
  then show ?case by (simp add: slot_values_def item_values_def)
next
  case (Cons r results)
  obtain pE res where r: "r = (pE, res)" by (cases r)
  from Cons.prems(1) obtain fm1 fc1 where
    af: "add_facts (fm, fc) res = Inr (fm1, fc1)" and pos: "0 < pE"
    and rest: "accumulate (fm1, fc1, sc + ln pE) results = Inr (fm', fc', sc')"
    by (auto simp: r math_log_def split: sum.splits if_splits)
  note a = add_facts_char [OF af Cons.prems(2)]
  then have l1: "length fc1 = length fm1" and l2: "length fm1 = length fm" by simp_all
  note ih = Cons.IH [OF rest l1, unfolded l2]
  have sv: "\<And>i. slot_values (length fm) i (r # results)
      = item_values (length fm) i res @ slot_values (length fm) i results"
    by (simp add: slot_values_def item_values_def r)
  show ?case
  proof (intro conjI allI impI)
    show "length fm' = length fm" using ih by simp
    show "length fc' = length fm" using ih by simp
    show "sc' = sc + sum_list (map (\<lambda>(pEvidence, result). ln pEvidence) (r # results))"
      using ih by (simp add: r)
    show "list_all (\<lambda>(pEvidence, result). 0 < pEvidence) (r # results)"
      using ih pos by (simp add: r)
  next
    fix i assume i: "i < length fm"
    show "fm' ! i = fm ! i + sum_list (slot_values (length fm) i (r # results))"
      using ih a i by (simp add: sv)
    show "fc' ! i = fc ! i + length (slot_values (length fm) i (r # results))"
      using ih a i by (simp add: sv)
  qed
qed

lemma accumulate_ok:
  "names_resolve n results \<Longrightarrow> list_all (\<lambda>(pEvidence, result). 0 < pEvidence) results \<Longrightarrow>
   length fm = n \<Longrightarrow> length fc = n \<Longrightarrow>
   \<exists>fm' fc' sc'. accumulate (fm, fc, sc) results = Inr (fm', fc', sc')"
proof (induction results arbitrary: fm fc sc)
  case Nil
  then show ?case by simp
next
  case (Cons r results)
  obtain pE res where r: "r = (pE, res)" by (cases r)
  from Cons.prems have nr: "list_all (\<lambda>(name, v). resolves n name) res" and pos: "0 < pE"
    and nr': "names_resolve n results" and pos': "list_all (\<lambda>(pEvidence, result). 0 < pEvidence) results"
    by (simp_all add: names_resolve_def r)
  from add_facts_ok [OF nr Cons.prems(3), of fc] obtain fm1 fc1
    where af: "add_facts (fm, fc) res = Inr (fm1, fc1)" by blast
  from add_facts_char [OF af] Cons.prems have l: "length fm1 = n" "length fc1 = n" by simp_all
  from Cons.IH [OF nr' pos' l, of "sc + ln pE"]
  show ?case by (simp add: r af math_log_def pos)
qed

lemma accumulate_nonpositive:
  "names_resolve n results \<Longrightarrow> list_ex (\<lambda>(pEvidence, result). pEvidence \<le> 0) results \<Longrightarrow>
   length fm = n \<Longrightarrow> length fc = n \<Longrightarrow>
   accumulate (fm, fc, sc) results = Inl ValueError"
proof (induction results arbitrary: fm fc sc)
  case Nil
  then show ?case by simp
next
  case (Cons r results)
  obtain pE res where r: "r = (pE, res)" by (cases r)
  from Cons.prems have nr: "list_all (\<lambda>(name, v). resolves n name) res"
    and nr': "names_resolve n results"
    by (simp_all add: names_resolve_def r)
  from add_facts_ok [OF nr Cons.prems(3), of fc] obtain fm1 fc1
    where af: "add_facts (fm, fc) res = Inr (fm1, fc1)" by blast
  from add_facts_char [OF af] Cons.prems have l: "length fm1 = n" "length fc1 = n" by simp_all
  show ?case
  proof (cases "pE \<le> 0")
    case True
    then show ?thesis by (simp add: r af math_log_def)
  next
    case False
    with Cons.prems(2) have "list_ex (\<lambda>(pEvidence, result). pEvidence \<le> 0) results"
      by (simp add: r)
    from Cons.IH [OF nr' this l, of "sc + ln pE"] False
    show ?thesis by (simp add: r af math_log_def)
  qed
qed

lemma accumulate_nonpositive_fails:
  "list_ex (\<lambda>(pEvidence, result). pEvidence \<le> 0) results \<Longrightarrow>
   \<exists>e. accumulate acc results = Inl e"
proof (induction results arbitrary: acc)
  case Nil
  then show ?case by simp
next
  case (Cons r results)
  obtain pE res where r: "r = (pE, res)" by (cases r)
  obtain fm fc sc where acc: "acc = (fm, fc, sc)" by (cases acc)
  show ?case
  proof (cases "add_facts (fm, fc) res")
    case (Inl e)
    then show ?thesis by (simp add: r acc)
  next
    case (Inr p)
    obtain fm1 fc1 where p: "p = (fm1, fc1)" by (cases p)
    show ?thesis
    proof (cases "pE \<le> 0")
      case True
      then show ?thesis by (simp add: r acc Inr p math_log_def)
    next
      case False
      with Cons.prems have "list_ex (\<lambda>(pEvidence, result). pEvidence \<le> 0) results"
        by (simp add: r)
      from Cons.IH [OF this, of "(fm1, fc1, sc + ln pE)"] False
      show ?thesis by (simp add: r acc Inr p math_log_def)
    qed
  qed
qed

lemma fact_index_demo:
  "fact_index ''lfi_fact_0(a)'' = Inr 0" "fact_index ''lfi_fact_0(b)'' = Inr 0"
  by code_simp+

lemma slot_of_demo:
  "slot_of 2 ''lfi_fact_0(a)'' = Inr 0" "slot_of 2 ''lfi_fact_0(b)'' = Inr 0"
  by (simp_all add: slot_of_def fact_index_demo list_pos_def)

lemma resolves_demo:
  "resolves 2 ''lfi_fact_0(a)''" "resolves 2 ''lfi_fact_0(b)''"
  by (simp_all add: resolves_def fact_index_demo list_pos_def)

lemma update_mean_results:
  "update floor_problem mean_results = Inr (0, floor_problem\<lparr>weights := [2 / 3, 3 / 4]\<rparr>)"
  by (simp add: update_def count_def floor_problem_def mean_results_def fact_index_demo list_pos_def
      math_log_def new_weights_def numeral_2_eq_2 upt_rec)

text \<open>
  C1, as the code has it. After an update round that returns, the weight store has the
  length it had, every slot for which no value was reported keeps its weight, and every
  other slot \<open>i\<close> holds the sum of the values reported for slot \<open>i\<close> divided by the
  number of those values: one per example and per ground query of the slot that the
  example reports, not one per example.
\<close>

theorem update_new_weights:
  assumes "update s results = Inr (score, s')"
  shows "length (weights s') = length (weights s) \<and>
    (\<forall>i < count s. weights s' ! i =
       (if slot_values (count s) i results = [] then weights s ! i
        else sum_list (slot_values (count s) i results) / real (length (slot_values (count s) i results))))"
proof -
  from assms obtain fm fc where
    acc: "accumulate (replicate (count s) 0, replicate (count s) 0, 0) results = Inr (fm, fc, score)"
    and s': "s' = s\<lparr>weights := new_weights (weights s) fm fc\<rparr>"
    by (auto simp: update_def split: sum.splits)
  from accumulate_char [OF acc]
  have c: "\<forall>i < count s. fm ! i = sum_list (slot_values (count s) i results) \<and>
                      fc ! i = length (slot_values (count s) i results)"
    by simp
  have l: "length (weights s') = length (weights s)"
    by (simp add: s' new_weights_def)
  have "\<forall>i < count s. weights s' ! i =
       (if slot_values (count s) i results = [] then weights s ! i
        else sum_list (slot_values (count s) i results) / real (length (slot_values (count s) i results)))"
    using c by (simp add: s' new_weights_def count_def)
  with l show ?thesis by simp
qed

theorem update_new_weights_witness:
  "update floor_problem mean_results = Inr (0, floor_problem\<lparr>weights := [2 / 3, 3 / 4]\<rparr>) \<and>
   slot_values 2 0 mean_results = [1 / 4, 3 / 4, 1] \<and> slot_values 2 1 mean_results = [] \<and>
   weights (floor_problem\<lparr>weights := [2 / 3, 3 / 4]\<rparr>) ! 0 = (1 / 4 + 3 / 4 + 1) / 3 \<and>
   weights (floor_problem\<lparr>weights := [2 / 3, 3 / 4]\<rparr>) ! 1 = weights floor_problem ! 1"
proof -
  have c: "count floor_problem = 2" by (simp add: count_def floor_problem_def)
  have v0: "slot_values 2 0 mean_results = [1 / 4, 3 / 4, 1]"
    by (simp add: slot_values_def item_values_def mean_results_def slot_of_demo)
  have v1: "slot_values 2 1 mean_results = []"
    by (simp add: slot_values_def item_values_def mean_results_def slot_of_demo)
  note t = update_new_weights [OF update_mean_results, unfolded c, THEN conjunct2, rule_format]
  have "weights (floor_problem\<lparr>weights := [2 / 3, 3 / 4]\<rparr>) ! 0 = (1 / 4 + 3 / 4 + 1) / 3"
    using t [of 0] by (simp add: v0)
  moreover have "weights (floor_problem\<lparr>weights := [2 / 3, 3 / 4]\<rparr>) ! 1 = weights floor_problem ! 1"
    using t [of 1] v1 by (simp add: floor_problem_def)
  ultimately show ?thesis using update_mean_results v0 v1 by blast
qed

text \<open>
  C1 as stated divides by the count of examples that reported a value for the slot.
  In \<open>mean_results\<close> two examples report three values for slot \<open>0\<close>, of sum \<open>2\<close>: the
  stated weight is \<open>1\<close>, the weight the update stores is \<open>2 / 3\<close>.
\<close>

theorem mean_over_examples_counterexample:
  "update floor_problem mean_results = Inr (0, floor_problem\<lparr>weights := [2 / 3, 3 / 4]\<rparr>) \<and>
   examples_reporting (count floor_problem) 0 mean_results = 2 \<and>
   sum_list (slot_values (count floor_problem) 0 mean_results)
      / real (examples_reporting (count floor_problem) 0 mean_results) = 1 \<and>
   weights (floor_problem\<lparr>weights := [2 / 3, 3 / 4]\<rparr>) ! 0 \<noteq>
     sum_list (slot_values (count floor_problem) 0 mean_results)
      / real (examples_reporting (count floor_problem) 0 mean_results)"
proof -
  have c: "count floor_problem = 2" by (simp add: count_def floor_problem_def)
  have v0: "slot_values 2 0 mean_results = [1 / 4, 3 / 4, 1]"
    by (simp add: slot_values_def item_values_def mean_results_def slot_of_demo)
  have e: "examples_reporting 2 0 mean_results = 2"
    by (simp add: examples_reporting_def mean_results_def slot_of_demo)
  show ?thesis by (simp add: c v0 e update_mean_results)
qed

text \<open>
  C7. The score an update round returns is the sum, over the results of all compiled
  examples, of the natural logarithm of the evidence probability, and a round only
  returns when every evidence probability is positive. The logarithm of an evidence
  probability of \<open>0.0\<close> is never taken as a number: \<^verbatim>\<open>math.log\<close> raises, no score is
  returned and no weight is written, so that the run ends there with the error
  (\<^verbatim>\<open>ValueError\<close> when all reported names belong to slots).
\<close>

theorem update_score:
  "(update s results = Inr (score, s') \<longrightarrow>
      score = sum_list (map (\<lambda>(pEvidence, result). ln pEvidence) results) \<and>
      list_all (\<lambda>(pEvidence, result). 0 < pEvidence) results) \<and>
   (names_resolve (count s) results \<and> list_all (\<lambda>(pEvidence, result). 0 < pEvidence) results \<longrightarrow>
      (\<exists>s1. update s results = Inr (sum_list (map (\<lambda>(pEvidence, result). ln pEvidence) results), s1))) \<and>
   (names_resolve (count s) results \<and> list_ex (\<lambda>(pEvidence, result). pEvidence \<le> 0) results \<longrightarrow>
      update s results = Inl ValueError) \<and>
   (list_ex (\<lambda>(pEvidence, result). pEvidence \<le> 0) results \<longrightarrow> (\<exists>e. update s results = Inl e))"
proof (intro conjI impI)
  assume u: "update s results = Inr (score, s')"
  then obtain fm fc where
    acc: "accumulate (replicate (count s) 0, replicate (count s) 0, 0) results = Inr (fm, fc, score)"
    by (auto simp: update_def split: sum.splits)
  from accumulate_char [OF acc]
  show "score = sum_list (map (\<lambda>(pEvidence, result). ln pEvidence) results)"
    and "list_all (\<lambda>(pEvidence, result). 0 < pEvidence) results"
    by simp_all
next
  assume a: "names_resolve (count s) results \<and> list_all (\<lambda>(pEvidence, result). 0 < pEvidence) results"
  then obtain fm fc sc where
    acc: "accumulate (replicate (count s) 0, replicate (count s) 0, 0) results = Inr (fm, fc, sc)"
    using accumulate_ok [of "count s" results "replicate (count s) 0" "replicate (count s) 0" 0]
    by auto
  from accumulate_char [OF acc]
  have "sc = sum_list (map (\<lambda>(pEvidence, result). ln pEvidence) results)" by simp
  with acc show "\<exists>s1. update s results = Inr (sum_list (map (\<lambda>(pEvidence, result). ln pEvidence) results), s1)"
    by (simp add: update_def)
next
  assume "names_resolve (count s) results \<and> list_ex (\<lambda>(pEvidence, result). pEvidence \<le> 0) results"
  then show "update s results = Inl ValueError"
    using accumulate_nonpositive [of "count s" results "replicate (count s) 0" "replicate (count s) 0" 0]
    by (simp add: update_def)
next
  assume "list_ex (\<lambda>(pEvidence, result). pEvidence \<le> 0) results"
  from accumulate_nonpositive_fails [OF this, of "(replicate (count s) 0, replicate (count s) 0, 0)"]
  show "\<exists>e. update s results = Inl e"
    by (auto simp: update_def)
qed

theorem update_score_witness:
  "names_resolve (count floor_problem) mean_results \<and>
   list_all (\<lambda>(pEvidence, result). 0 < pEvidence) mean_results \<and>
   (\<exists>s1. update floor_problem mean_results = Inr (ln 1 + ln 1, s1)) \<and>
   names_resolve (count floor_problem) zero_results \<and>
   list_ex (\<lambda>(pEvidence, result). pEvidence \<le> 0) zero_results \<and>
   update floor_problem zero_results = Inl ValueError"
proof -
  have c: "count floor_problem = 2" by (simp add: count_def floor_problem_def)
  have n1: "names_resolve (count floor_problem) mean_results"
    by (simp add: c names_resolve_def mean_results_def resolves_demo)
  have p1: "list_all (\<lambda>(pEvidence, result). 0 < pEvidence) mean_results"
    by (simp add: mean_results_def)
  have n2: "names_resolve (count floor_problem) zero_results"
    by (simp add: c names_resolve_def zero_results_def resolves_demo)
  have p2: "list_ex (\<lambda>(pEvidence, result). pEvidence \<le> 0) zero_results"
    by (simp add: zero_results_def)
  note t = update_score [of floor_problem mean_results 0 floor_problem]
  note z = update_score [of floor_problem zero_results 0 floor_problem]
  from t n1 p1 have "\<exists>s1. update floor_problem mean_results
      = Inr (sum_list (map (\<lambda>(pEvidence, result). ln pEvidence) mean_results), s1)"
    by blast
  then have a: "\<exists>s1. update floor_problem mean_results = Inr (ln 1 + ln 1, s1)"
    by (simp add: mean_results_def)
  from z n2 p2 have b: "update floor_problem zero_results = Inl ValueError"
    by blast
  from n1 p1 a n2 p2 b show ?thesis by blast
qed

subsection \<open>The convergence loop\<close>

lemma process_atom_keeps:
  "process_atom eng s atom = Inr (out, s') \<Longrightarrow>
     source s' = source s \<and> examples s' = examples s \<and> compiled_examples s' = compiled_examples s \<and>
     max_iter s' = max_iter s \<and> min_improv s' = min_improv s \<and> iteration s' = iteration s"
  by (auto simp: process_atom_def Let_def split: if_splits pterm.splits sum.splits)

lemma process_heads_keeps:
  "process_heads eng s hs = Inr (out, s') \<Longrightarrow>
     source s' = source s \<and> examples s' = examples s \<and> compiled_examples s' = compiled_examples s \<and>
     max_iter s' = max_iter s \<and> min_improv s' = min_improv s \<and> iteration s' = iteration s"
proof (induction hs arbitrary: s out)
  case Nil
  then show ?case by simp
next
  case (Cons h hs)
  from Cons.prems obtain o1 s1 o2 where
    a: "process_atom eng s h = Inr (o1, s1)" and b: "process_heads eng s1 hs = Inr (o2, s')"
    by (auto split: sum.splits)
  from process_atom_keeps [OF a] Cons.IH [OF b] show ?case by simp
qed

lemma iter_statement_keeps:
  "iter_statement eng s c = Inr (out, s') \<Longrightarrow>
     source s' = source s \<and> examples s' = examples s \<and> compiled_examples s' = compiled_examples s \<and>
     max_iter s' = max_iter s \<and> min_improv s' = min_improv s \<and> iteration s' = iteration s"
proof (cases c)
  case (Clause h b)
  assume "iter_statement eng s c = Inr (out, s')"
  then show ?thesis using Clause
    by (auto split: if_splits sum.splits dest!: process_atom_keeps)
next
  case (AnnotatedDisjunction hs b)
  assume "iter_statement eng s c = Inr (out, s')"
  then show ?thesis using AnnotatedDisjunction
    by (auto split: if_splits sum.splits dest!: process_heads_keeps)
next
  case (Fact f)
  assume "iter_statement eng s c = Inr (out, s')"
  then show ?thesis using Fact
    by (auto split: if_splits sum.splits dest!: process_atom_keeps)
qed

lemma iter_statements_keeps:
  "iter_statements eng s cs = Inr (out, s') \<Longrightarrow>
     source s' = source s \<and> examples s' = examples s \<and> compiled_examples s' = compiled_examples s \<and>
     max_iter s' = max_iter s \<and> min_improv s' = min_improv s \<and> iteration s' = iteration s"
proof (induction cs arbitrary: s out)
  case Nil
  then show ?case by simp
next
  case (Cons c cs)
  from Cons.prems obtain o1 s1 o2 where
    a: "iter_statement eng s c = Inr (o1, s1)" and b: "iter_statements eng s1 cs = Inr (o2, s')"
    by (auto split: sum.splits)
  from iter_statement_keeps [OF a] Cons.IH [OF b] show ?case by simp
qed

lemma prepare_keeps:
  "prepare eng s = Inr s' \<Longrightarrow>
     max_iter s' = max_iter s \<and> min_improv s' = min_improv s \<and> iteration s' = iteration s"
  by (auto simp: prepare_def compile_examples_def iter_program_def split: sum.splits
      dest!: iter_statements_keeps)

lemma run_loop_char:
  "\<exists>n. int n \<le> max 0 (max_iter s - iteration s) \<and>
     (\<forall>k < n. \<exists>c. rounds eng k (s, delta, prev_score) = Inr c \<and> continues c) \<and>
     (case run_loop eng s delta prev_score of
        Inl e \<Rightarrow> rounds eng n (s, delta, prev_score) = Inl e
      | Inr (r, s') \<Rightarrow>
          (\<exists>d. rounds eng n (s, delta, prev_score) = Inr (s', d, r) \<and> \<not> continues (s', d, r)) \<and>
          iteration s' = iteration s + int n \<and> max_iter s' = max_iter s \<and> min_improv s' = min_improv s)"
proof (induction eng s delta prev_score rule: run_loop.induct)
  case (1 eng s delta prev_score)
  show ?case
  proof (cases "iteration s < max_iter s \<and> delta > min_improv s")
    case False
    then have "run_loop eng s delta prev_score = Inr (prev_score, s)"
      by (subst run_loop.simps) auto
    with False show ?thesis
      by (intro exI [of _ 0]) (simp add: continues_def)
  next
    case True
    then have c0: "continues (s, delta, prev_score)" by (simp add: continues_def)
    show ?thesis
    proof (cases "step eng s")
      case (Inl e)
      with True have "run_loop eng s delta prev_score = Inl e"
        by (subst run_loop.simps) simp
      with True Inl c0 show ?thesis
        by (intro exI [of _ 1]) simp
    next
      case (Inr x2)
      obtain score s1 where x2: "x2 = (score, s1)" by (cases x2)
      from step_keeps [of eng s score s1] Inr x2
      have k: "iteration s1 = iteration s + 1" "max_iter s1 = max_iter s" "min_improv s1 = min_improv s"
        by simp_all
      from "1.IH" [OF True Inr x2 [symmetric]] obtain n where
        b: "int n \<le> max 0 (max_iter s1 - iteration s1)"
        and e: "\<forall>k < n. \<exists>c. rounds eng k (s1, score - prev_score, score) = Inr c \<and> continues c"
        and f: "case run_loop eng s1 (score - prev_score) score of
                  Inl e \<Rightarrow> rounds eng n (s1, score - prev_score, score) = Inl e
                | Inr (r, s') \<Rightarrow>
                    (\<exists>d. rounds eng n (s1, score - prev_score, score) = Inr (s', d, r) \<and> \<not> continues (s', d, r)) \<and>
                    iteration s' = iteration s1 + int n \<and> max_iter s' = max_iter s1 \<and> min_improv s' = min_improv s1"
        by blast
      have rl: "run_loop eng s delta prev_score = run_loop eng s1 (score - prev_score) score"
        using True Inr x2 by (subst run_loop.simps) simp
      have rd: "\<And>k. rounds eng (Suc k) (s, delta, prev_score) = rounds eng k (s1, score - prev_score, score)"
        using Inr x2 by simp
      have "int (Suc n) \<le> max 0 (max_iter s - iteration s)"
        using b k True by simp
      moreover have "\<forall>k < Suc n. \<exists>c. rounds eng k (s, delta, prev_score) = Inr c \<and> continues c"
      proof (intro allI impI)
        fix k assume "k < Suc n"
        then show "\<exists>c. rounds eng k (s, delta, prev_score) = Inr c \<and> continues c"
          using e c0 rd by (cases k) auto
      qed
      moreover have "case run_loop eng s delta prev_score of
        Inl e \<Rightarrow> rounds eng (Suc n) (s, delta, prev_score) = Inl e
      | Inr (r, s') \<Rightarrow>
          (\<exists>d. rounds eng (Suc n) (s, delta, prev_score) = Inr (s', d, r) \<and> \<not> continues (s', d, r)) \<and>
          iteration s' = iteration s + int (Suc n) \<and> max_iter s' = max_iter s \<and> min_improv s' = min_improv s"
        using f k unfolding rl rd by (auto split: sum.splits)
      ultimately show ?thesis by blast
    qed
  qed
qed

lemma str_of_nat_0: "str_of_nat 0 = ''0''"
  by code_simp

lemma fact_index_demo_x: "fact_index ''lfi_fact_0(x)'' = Inr 0"
  by code_simp

lemma iter_certain:
  "iter_program demo_engine certain_problem =
     Inr ([Fact (Term ''lfi_fact_0'' [Term ''x'' [] None] (Some (Term ''lfi'' [Constant (IntC 0)] None))),
           Clause (Term ''p'' [Term ''x'' [] None] None) (Term ''lfi_fact_0'' [Term ''x'' [] None] None),
           Fact (Term ''query'' [Term ''lfi_fact_0'' [Term ''x'' [] None] None] None)],
          certain_problem\<lparr>weights := [1],
            queries := [Term ''lfi_fact_0'' [Term ''x'' [] None] None],
            names := [certain_fact]\<rparr>)"
  by (simp add: iter_program_def certain_problem_def init_def certain_fact_def is_query_def arity_def
      process_atom_def learnable_def count_def lfi_fact_of_def lfi_prob_of_def str_of_nat_0
      float_of_const_def Let_def)

lemma prepare_certain: "prepare demo_engine certain_problem = Inr certain_prepared"
  by (simp add: prepare_def compile_examples_def iter_certain)
     (simp add: demo_engine_def certain_problem_def init_def group_append_def process_examples_def
        certain_prepared_def)

lemma step_certain:
  "step demo_engine (certain_prepared\<lparr>iteration := k\<rparr>) = Inr (0, certain_prepared\<lparr>iteration := k + 1\<rparr>)"
  by (simp add: step_def evaluate_examples_def certain_prepared_def evaluate_example_def
      certain_compiled_def posterior_floor_def update_def count_def fact_index_demo_x list_pos_def
      math_log_def new_weights_def Let_def)

lemma run_certain:
  "run demo_engine certain_problem = Inr (0, certain_prepared\<lparr>iteration := 2\<rparr>)"
proof -
  have i0: "iteration certain_prepared = 0" "max_iter certain_prepared = 5" "min_improv certain_prepared = 1"
    by (simp_all add: certain_prepared_def certain_problem_def init_def)
  have s0: "step demo_engine certain_prepared = Inr (0, certain_prepared\<lparr>iteration := 1\<rparr>)"
    using step_certain [of 0] by (simp add: certain_prepared_def certain_problem_def init_def)
  have s1: "step demo_engine (certain_prepared\<lparr>iteration := 1\<rparr>) = Inr (0, certain_prepared\<lparr>iteration := 2\<rparr>)"
    using step_certain [of 1] by simp
  have "run_loop demo_engine certain_prepared 1000 (- 10000000000)
      = run_loop demo_engine (certain_prepared\<lparr>iteration := 1\<rparr>) (0 - (- 10000000000)) 0"
    by (subst run_loop.simps) (simp add: i0 s0)
  also have "\<dots> = run_loop demo_engine (certain_prepared\<lparr>iteration := 2\<rparr>) (0 - 0) 0"
    by (subst run_loop.simps) (simp add: i0 s1)
  also have "\<dots> = Inr (0, certain_prepared\<lparr>iteration := 2\<rparr>)"
    by (subst run_loop.simps) (simp add: i0)
  finally show ?thesis by (simp add: run_def prepare_certain)
qed

lemma prepare_sentinel: "prepare demo_engine sentinel_problem = Inr sentinel_prepared"
proof -
  have "iter_program demo_engine sentinel_problem =
     Inr ([Fact (Term ''lfi_fact_0'' [Term ''x'' [] None] (Some (Term ''lfi'' [Constant (IntC 0)] None))),
           Clause (Term ''p'' [Term ''x'' [] None] None) (Term ''lfi_fact_0'' [Term ''x'' [] None] None),
           Fact (Term ''query'' [Term ''lfi_fact_0'' [Term ''x'' [] None] None] None)],
          sentinel_problem\<lparr>weights := [1],
            queries := [Term ''lfi_fact_0'' [Term ''x'' [] None] None],
            names := [certain_fact]\<rparr>)"
    by (simp add: iter_program_def sentinel_problem_def init_def certain_fact_def is_query_def arity_def
        process_atom_def learnable_def count_def lfi_fact_of_def lfi_prob_of_def str_of_nat_0
        float_of_const_def Let_def)
  then show ?thesis
    by (simp add: prepare_def compile_examples_def)
       (simp add: demo_engine_def sentinel_problem_def init_def group_append_def process_examples_def
          sentinel_prepared_def)
qed

lemma step_sentinel:
  "step demo_engine (sentinel_prepared\<lparr>iteration := k\<rparr>) = Inr (0, sentinel_prepared\<lparr>iteration := k + 1\<rparr>)"
  by (simp add: step_def evaluate_examples_def sentinel_prepared_def evaluate_example_def
      certain_compiled_def posterior_floor_def update_def count_def fact_index_demo_x list_pos_def
      math_log_def new_weights_def Let_def)

text \<open>
  C6, as the code has it. For every \<^verbatim>\<open>max_iter\<close> and \<^verbatim>\<open>min_improv\<close> the run returns
  (the loop is a total function): either \<^verbatim>\<open>prepare\<close> raises, or there is a number
  \<open>n\<close> of rounds, at most \<^verbatim>\<open>max_iter\<close> less the iterations already counted (and at
  least none), such that the loop test held before each of them and either round \<open>n\<close>
  raised, or after round \<open>n\<close> the test fails for the first time:
  \<^verbatim>\<open>iteration >= max_iter\<close> or \<^verbatim>\<open>delta <= min_improv\<close>. After a round \<^verbatim>\<open>delta\<close> is the
  score of the round less the previous score; before the first round it is the
  constant \<open>1000\<close> (and the previous score \<open>-1e10\<close>). So the loop stops at the first
  round whose score exceeds the previous score by at most \<^verbatim>\<open>min_improv\<close> only when
  \<^verbatim>\<open>min_improv\<close> is below \<open>1000\<close>: no round at all is executed exactly when
  \<^verbatim>\<open>max_iter\<close> is already reached or \<^verbatim>\<open>min_improv\<close> is \<open>1000\<close> or more.
\<close>

theorem run_terminates:
  "case prepare eng s of
     Inl e \<Rightarrow> run eng s = Inl e
   | Inr s1 \<Rightarrow>
       (\<exists>n. int n \<le> max 0 (max_iter s - iteration s) \<and>
          (n = 0 \<longleftrightarrow> max_iter s \<le> iteration s \<or> 1000 \<le> min_improv s) \<and>
          (\<forall>k < n. \<exists>c. rounds eng k (s1, 1000, - 10000000000) = Inr c \<and> continues c) \<and>
          (case run eng s of
             Inl e \<Rightarrow> rounds eng n (s1, 1000, - 10000000000) = Inl e
           | Inr (r, s') \<Rightarrow>
               (\<exists>d. rounds eng n (s1, 1000, - 10000000000) = Inr (s', d, r) \<and>
                    (max_iter s \<le> iteration s' \<or> d \<le> min_improv s)) \<and>
               iteration s' = iteration s + int n))"
proof (cases "prepare eng s")
  case (Inl e)
  then show ?thesis by (simp add: run_def)
next
  case (Inr s1)
  note k = prepare_keeps [OF Inr]
  have r: "run eng s = run_loop eng s1 1000 (- 10000000000)" by (simp add: run_def Inr)
  from run_loop_char [of s1 eng 1000 "- 10000000000"] obtain n where
    b: "int n \<le> max 0 (max_iter s1 - iteration s1)"
    and e: "\<forall>k < n. \<exists>c. rounds eng k (s1, 1000, - 10000000000) = Inr c \<and> continues c"
    and f: "case run_loop eng s1 1000 (- 10000000000) of
        Inl e \<Rightarrow> rounds eng n (s1, 1000, - 10000000000) = Inl e
      | Inr (r, s') \<Rightarrow>
          (\<exists>d. rounds eng n (s1, 1000, - 10000000000) = Inr (s', d, r) \<and> \<not> continues (s', d, r)) \<and>
          iteration s' = iteration s1 + int n \<and> max_iter s' = max_iter s1 \<and> min_improv s' = min_improv s1"
    by blast
  have g: "case run eng s of
             Inl e \<Rightarrow> rounds eng n (s1, 1000, - 10000000000) = Inl e
           | Inr (r, s') \<Rightarrow>
               (\<exists>d. rounds eng n (s1, 1000, - 10000000000) = Inr (s', d, r) \<and>
                    (max_iter s \<le> iteration s' \<or> d \<le> min_improv s)) \<and>
               iteration s' = iteration s + int n"
    using f k unfolding r by (auto simp: continues_def split: sum.splits)
  have z: "n = 0 \<longleftrightarrow> \<not> continues (s1, 1000, - 10000000000)"
  proof
    assume n0: "n = 0"
    show "\<not> continues (s1, 1000, - 10000000000)"
    proof (cases "run_loop eng s1 1000 (- 10000000000)")
      case (Inl x)
      with f n0 show ?thesis by simp
    next
      case (Inr p)
      obtain r' s' where p: "p = (r', s')" by (cases p)
      from f Inr p n0 show ?thesis by auto
    qed
  next
    assume nc: "\<not> continues (s1, 1000, - 10000000000)"
    show "n = 0"
    proof (rule ccontr)
      assume "n \<noteq> 0"
      then have "0 < n" by simp
      with e obtain c where "rounds eng 0 (s1, 1000, - 10000000000) = Inr c" and "continues c"
        by blast
      with nc show False by simp
    qed
  qed
  have z': "n = 0 \<longleftrightarrow> max_iter s \<le> iteration s \<or> 1000 \<le> min_improv s"
    using z k by (auto simp: continues_def)
  from b z' e g k show ?thesis by (simp add: Inr) blast
qed

theorem run_terminates_witness:
  "prepare demo_engine certain_problem = Inr certain_prepared \<and>
   run demo_engine certain_problem = Inr (0, certain_prepared\<lparr>iteration := 2\<rparr>) \<and>
   (\<exists>n. n = 2 \<and> int n \<le> max 0 (max_iter certain_problem - iteration certain_problem) \<and>
      (\<forall>k < n. \<exists>c. rounds demo_engine k (certain_prepared, 1000, - 10000000000) = Inr c \<and> continues c) \<and>
      (\<exists>d. rounds demo_engine n (certain_prepared, 1000, - 10000000000)
              = Inr (certain_prepared\<lparr>iteration := 2\<rparr>, d, 0) \<and>
           (max_iter certain_problem \<le> 2 \<or> d \<le> min_improv certain_problem)))"
proof -
  have i0: "iteration certain_problem = 0" by (simp add: certain_problem_def init_def)
  from run_terminates [of demo_engine certain_problem] obtain n where
    b: "int n \<le> max 0 (max_iter certain_problem - iteration certain_problem)"
    and e: "\<forall>k < n. \<exists>c. rounds demo_engine k (certain_prepared, 1000, - 10000000000) = Inr c \<and> continues c"
    and d: "\<exists>d. rounds demo_engine n (certain_prepared, 1000, - 10000000000)
              = Inr (certain_prepared\<lparr>iteration := 2\<rparr>, d, 0) \<and>
           (max_iter certain_problem \<le> iteration (certain_prepared\<lparr>iteration := 2\<rparr>) \<or> d \<le> min_improv certain_problem)"
    and n: "iteration (certain_prepared\<lparr>iteration := 2\<rparr>) = iteration certain_problem + int n"
    unfolding prepare_certain run_certain sum.case prod.case by blast
  from n i0 have "n = 2" by simp
  with b e d show ?thesis by (simp add: prepare_certain run_certain)
qed

text \<open>
  C6 as stated has the loop stop, for every \<^verbatim>\<open>min_improv\<close>, at the first round whose
  score exceeds the previous score by at most \<^verbatim>\<open>min_improv\<close>. With
  \<^verbatim>\<open>min_improv = 1000\<close> and \<^verbatim>\<open>max_iter = 5\<close> on \<^verbatim>\<open>t(1.0)::p(x).\<close> the first round
  would score \<open>0\<close> with a \<^verbatim>\<open>delta\<close> of \<open>1e10\<close> and the second \<open>0\<close> with a \<^verbatim>\<open>delta\<close>
  of \<open>0\<close>, so the stated loop stops after the second round; the run executes no round
  and returns the initial previous score \<open>-1e10\<close>.
\<close>

theorem sentinel_delta_counterexample:
  "max_iter sentinel_problem = 5 \<and> min_improv sentinel_problem = 1000 \<and>
   prepare demo_engine sentinel_problem = Inr sentinel_prepared \<and>
   iteration sentinel_prepared = 0 \<and>
   rounds demo_engine 1 (sentinel_prepared, 1000, - 10000000000)
     = Inr (sentinel_prepared\<lparr>iteration := 1\<rparr>, 10000000000, 0) \<and>
   rounds demo_engine 2 (sentinel_prepared, 1000, - 10000000000)
     = Inr (sentinel_prepared\<lparr>iteration := 2\<rparr>, 0, 0) \<and>
   run demo_engine sentinel_problem = Inr (- 10000000000, sentinel_prepared)"
proof -
  have i0: "iteration sentinel_prepared = 0" "max_iter sentinel_prepared = 5"
    "min_improv sentinel_prepared = 1000"
    by (simp_all add: sentinel_prepared_def sentinel_problem_def init_def)
  have m: "max_iter sentinel_problem = 5" "min_improv sentinel_problem = 1000"
    by (simp_all add: sentinel_problem_def init_def)
  have s0: "step demo_engine sentinel_prepared = Inr (0, sentinel_prepared\<lparr>iteration := 1\<rparr>)"
    using step_sentinel [of 0] by (simp add: sentinel_prepared_def sentinel_problem_def init_def)
  have s1: "step demo_engine (sentinel_prepared\<lparr>iteration := 1\<rparr>) = Inr (0, sentinel_prepared\<lparr>iteration := 2\<rparr>)"
    using step_sentinel [of 1] by simp
  have r1: "rounds demo_engine (Suc 0) (sentinel_prepared, 1000, - 10000000000)
     = Inr (sentinel_prepared\<lparr>iteration := 1\<rparr>, 10000000000, 0)"
    by (simp add: s0)
  have r2: "rounds demo_engine (Suc (Suc 0)) (sentinel_prepared, 1000, - 10000000000)
     = Inr (sentinel_prepared\<lparr>iteration := 2\<rparr>, 0, 0)"
    by (simp add: s0 s1)
  have "run_loop demo_engine sentinel_prepared 1000 (- 10000000000)
      = Inr (- 10000000000, sentinel_prepared)"
    by (subst run_loop.simps) (simp add: i0)
  then have r: "run demo_engine sentinel_problem = Inr (- 10000000000, sentinel_prepared)"
    by (simp add: run_def prepare_sentinel)
  from m prepare_sentinel i0(1) r1 r2 r show ?thesis
    by (simp add: numeral_2_eq_2)
qed

text \<open>
  C2, as the code has it. With \<^verbatim>\<open>min_improv = 1.0\<close> and \<^verbatim>\<open>max_iter = 5\<close> a run that
  returns has executed between one and five rounds, up to the first round after which
  \<^verbatim>\<open>iteration = 5\<close> or \<^verbatim>\<open>delta <= 1.0\<close>. The first \<^verbatim>\<open>delta\<close> is the first score plus
  \<open>1e10\<close>, so the run ends after exactly one round only when the first score is at
  most \<open>1 - 1e10\<close>; with any larger first score it executes at least two rounds.
\<close>

theorem run_unit_threshold:
  assumes "max_iter s = 5" and "min_improv s = 1" and "iteration s = 0"
    and "run eng s = Inr (r, s')"
  shows "1 \<le> iteration s' \<and> iteration s' \<le> 5 \<and>
    (\<exists>s1 score s2. prepare eng s = Inr s1 \<and> step eng s1 = Inr (score, s2) \<and>
       (iteration s' = 1 \<longleftrightarrow> score \<le> 1 - 10000000000) \<and>
       (\<exists>n d. int n = iteration s' \<and> rounds eng n (s1, 1000, - 10000000000) = Inr (s', d, r) \<and>
          (iteration s' = 5 \<or> d \<le> 1) \<and>
          (\<forall>k < n. \<exists>c. rounds eng k (s1, 1000, - 10000000000) = Inr c \<and> continues c)))"
proof -
  from assms(4) obtain s1 where p: "prepare eng s = Inr s1"
    and rl: "run_loop eng s1 1000 (- 10000000000) = Inr (r, s')"
    by (auto simp: run_def split: sum.splits)
  note k = prepare_keeps [OF p]
  from run_loop_char [of s1 eng 1000 "- 10000000000"] rl obtain n d where
    b: "int n \<le> max 0 (max_iter s1 - iteration s1)"
    and e: "\<forall>k < n. \<exists>c. rounds eng k (s1, 1000, - 10000000000) = Inr c \<and> continues c"
    and rd: "rounds eng n (s1, 1000, - 10000000000) = Inr (s', d, r)"
    and nc: "\<not> continues (s', d, r)"
    and it: "iteration s' = iteration s1 + int n"
    and mi: "max_iter s' = max_iter s1" "min_improv s' = min_improv s1"
    by auto
  have c0: "continues (s1, 1000, - 10000000000)"
    using k assms by (simp add: continues_def)
  have n0: "n \<noteq> 0"
  proof
    assume "n = 0"
    with rd nc c0 show False by simp
  qed
  then obtain m where m: "n = Suc m" by (cases n) auto
  from rd m obtain score s2 where st: "step eng s1 = Inr (score, s2)"
    by (auto split: sum.splits)
  have r1: "rounds eng (Suc 0) (s1, 1000, - 10000000000) = Inr (s2, score + 10000000000, score)"
    using st by simp
  from step_keeps [OF st] k assms
  have k2: "iteration s2 = 1" "max_iter s2 = 5" "min_improv s2 = 1" by simp_all
  have one: "iteration s' = 1 \<longleftrightarrow> score \<le> 1 - 10000000000"
  proof
    assume "iteration s' = 1"
    with it k assms have "n = Suc 0" by simp
    with rd r1 have "s' = s2" "d = score + 10000000000" by simp_all
    with nc k2 show "score \<le> 1 - 10000000000" by (simp add: continues_def)
  next
    assume sc: "score \<le> 1 - 10000000000"
    have "\<not> 1 < n"
    proof
      assume "1 < n"
      then have "Suc 0 < n" by simp
      with e obtain c where "rounds eng (Suc 0) (s1, 1000, - 10000000000) = Inr c" and cc: "continues c"
        by blast
      with r1 have "c = (s2, score + 10000000000, score)" by simp
      with cc k2 sc show False by (simp add: continues_def)
    qed
    with n0 have "n = 1" by simp
    with it k assms show "iteration s' = 1" by simp
  qed
  have stop: "iteration s' = 5 \<or> d \<le> 1"
    using nc mi k assms it b by (auto simp: continues_def)
  have "1 \<le> iteration s'" using it n0 k assms by simp
  moreover have "iteration s' \<le> 5" using it b k assms by simp
  moreover have "int n = iteration s'" using it k assms by simp
  ultimately show ?thesis using p st one rd stop e by blast
qed

theorem run_unit_threshold_witness:
  "max_iter certain_problem = 5 \<and> min_improv certain_problem = 1 \<and> iteration certain_problem = 0 \<and>
   run demo_engine certain_problem = Inr (0, certain_prepared\<lparr>iteration := 2\<rparr>) \<and>
   1 \<le> iteration (certain_prepared\<lparr>iteration := 2\<rparr>) \<and> iteration (certain_prepared\<lparr>iteration := 2\<rparr>) \<le> 5 \<and>
   (\<exists>score s2. step demo_engine certain_prepared = Inr (score, s2) \<and> \<not> score \<le> 1 - 10000000000)"
proof -
  have h: "max_iter certain_problem = 5" "min_improv certain_problem = 1" "iteration certain_problem = 0"
    by (simp_all add: certain_problem_def init_def)
  from run_unit_threshold [OF h run_certain]
  have "1 \<le> iteration (certain_prepared\<lparr>iteration := 2\<rparr>) \<and> iteration (certain_prepared\<lparr>iteration := 2\<rparr>) \<le> 5 \<and>
    (\<exists>score s2. step demo_engine certain_prepared = Inr (score, s2) \<and>
       (iteration (certain_prepared\<lparr>iteration := 2\<rparr>) = 1 \<longleftrightarrow> score \<le> 1 - 10000000000))"
    by (auto simp: prepare_certain)
  then show ?thesis using h run_certain by auto
qed

text \<open>
  C2 as stated says exactly one round. On \<^verbatim>\<open>t(1.0)::p(x).\<close> with one example
  \<^verbatim>\<open>evidence(p(x), true)\<close> every round scores \<open>ln 1 = 0\<close>: the first \<^verbatim>\<open>delta\<close> is
  \<open>1e10\<close>, the second is \<open>0\<close>, and the run returns after two rounds.
\<close>

theorem one_round_counterexample:
  "max_iter certain_problem = 5 \<and> min_improv certain_problem = 1 \<and>
   map_sum id (\<lambda>(score, s'). (score, iteration s')) (run demo_engine certain_problem) = Inr (0, 2)"
  by (simp add: run_certain) (simp add: certain_problem_def init_def)

subsection \<open>The model rewriter\<close>




lemma process_atom_count:
  "process_atom eng s atom = Inr (out, s') \<Longrightarrow>
     count s' = count s + length (filter learnable [atom]) \<and> source s' = source s"
  by (auto simp: process_atom_def count_def Let_def split: if_splits pterm.splits sum.splits)

lemma process_heads_count:
  "process_heads eng s hs = Inr (out, s') \<Longrightarrow>
     count s' = count s + length (filter learnable hs) \<and> source s' = source s"
proof (induction hs arbitrary: s out)
  case Nil
  then show ?case by simp
next
  case (Cons h hs)
  from Cons.prems obtain o1 s1 o2 where
    a: "process_atom eng s h = Inr (o1, s1)" and b: "process_heads eng s1 hs = Inr (o2, s')"
    by (auto split: sum.splits)
  from process_atom_count [OF a] Cons.IH [OF b] show ?case by simp
qed

lemma iter_statement_count:
  "iter_statement eng s c = Inr (out, s') \<Longrightarrow>
     count s' = count s + length (filter learnable (processed_atoms c)) \<and> source s' = source s"
proof (cases c)
  case (Clause h b)
  assume "iter_statement eng s c = Inr (out, s')"
  then show ?thesis using Clause
    by (auto split: if_splits sum.splits dest!: process_atom_count)
next
  case (AnnotatedDisjunction hs b)
  assume "iter_statement eng s c = Inr (out, s')"
  then show ?thesis using AnnotatedDisjunction
    by (auto split: if_splits sum.splits dest!: process_heads_count)
next
  case (Fact f)
  assume "iter_statement eng s c = Inr (out, s')"
  then show ?thesis using Fact
    by (auto split: if_splits sum.splits dest!: process_atom_count)
qed

lemma iter_statements_count:
  "iter_statements eng s cs = Inr (out, s') \<Longrightarrow>
     count s' = count s + length (learnable_atoms cs) \<and> source s' = source s"
proof (induction cs arbitrary: s out)
  case Nil
  then show ?case by (simp add: learnable_atoms_def)
next
  case (Cons c cs)
  from Cons.prems obtain o1 s1 o2 where
    a: "iter_statement eng s c = Inr (o1, s1)" and b: "iter_statements eng s1 cs = Inr (o2, s')"
    by (auto split: sum.splits)
  from iter_statement_count [OF a] Cons.IH [OF b] show ?case
    by (simp add: learnable_atoms_def)
qed

lemma update_count: "update s results = Inr (score, s') \<Longrightarrow> count s' = count s"
  by (auto simp: update_def count_def new_weights_def split: sum.splits)

lemma step_count: "step eng s = Inr (score, s') \<Longrightarrow> count s' = count s"
  by (auto simp: step_def Let_def count_def split: sum.splits dest!: update_count)

lemma run_loop_count: "run_loop eng s delta prev_score = Inr (r, s') \<Longrightarrow> count s' = count s"
proof (induction eng s delta prev_score rule: run_loop.induct)
  case (1 eng s delta prev_score)
  show ?case
  proof (cases "iteration s < max_iter s \<and> delta > min_improv s")
    case False
    with "1.prems" have "s' = s" by (subst (asm) run_loop.simps) auto
    then show ?thesis by simp
  next
    case True
    with "1.prems" obtain score s1 where st: "step eng s = Inr (score, s1)"
      and rl: "run_loop eng s1 (score - prev_score) score = Inr (r, s')"
      by (subst (asm) run_loop.simps) (auto split: sum.splits)
    from "1.IH" [OF True st refl rl] step_count [OF st] show ?thesis by simp
  qed
qed

text \<open>
  C3, as the code has it. A full traversal of the source program adds one slot per
  learnable atom it discovers, so that after the first traversal, which starts from
  the empty weight store, the length of the store is the number of learnable atoms;
  no update round and no run of the convergence loop changes the length. A further
  traversal does not reuse the slots: it appends as many again.
\<close>

theorem traversal_slot_count:
  assumes "iter_program eng s = Inr (out, s1)"
  shows "count s1 = count s + length (learnable_atoms (source s)) \<and>
     (\<forall>results score s2. update s1 results = Inr (score, s2) \<longrightarrow> count s2 = count s1) \<and>
     (\<forall>delta prev_score r s2. run_loop eng s1 delta prev_score = Inr (r, s2) \<longrightarrow> count s2 = count s1) \<and>
     (\<forall>out2 s2. iter_program eng s1 = Inr (out2, s2) \<longrightarrow>
        count s2 = count s1 + length (learnable_atoms (source s)))"
proof (intro conjI allI impI)
  from assms have i: "iter_statements eng s (source s) = Inr (out, s1)"
    by (simp add: iter_program_def)
  from iter_statements_count [OF i]
  show "count s1 = count s + length (learnable_atoms (source s))" by simp
next
  fix results score s2
  assume "update s1 results = Inr (score, s2)"
  then show "count s2 = count s1" by (rule update_count)
next
  fix delta prev_score r s2
  assume "run_loop eng s1 delta prev_score = Inr (r, s2)"
  then show "count s2 = count s1" by (rule run_loop_count)
next
  fix out2 s2
  assume "iter_program eng s1 = Inr (out2, s2)"
  then have j: "iter_statements eng s1 (source s1) = Inr (out2, s2)"
    by (simp add: iter_program_def)
  from assms have i: "iter_statements eng s (source s) = Inr (out, s1)"
    by (simp add: iter_program_def)
  from iter_statements_count [OF i] have b: "source s1 = source s" by simp
  from iter_statements_count [OF j] b
  show "count s2 = count s1 + length (learnable_atoms (source s))" by simp
qed

theorem traversal_slot_count_witness:
  "iter_program demo_engine certain_problem =
     Inr ([Fact (Term ''lfi_fact_0'' [Term ''x'' [] None] (Some (Term ''lfi'' [Constant (IntC 0)] None))),
           Clause (Term ''p'' [Term ''x'' [] None] None) (Term ''lfi_fact_0'' [Term ''x'' [] None] None),
           Fact (Term ''query'' [Term ''lfi_fact_0'' [Term ''x'' [] None] None] None)],
          certain_problem\<lparr>weights := [1],
            queries := [Term ''lfi_fact_0'' [Term ''x'' [] None] None],
            names := [certain_fact]\<rparr>) \<and>
   learnable_atoms (source certain_problem) = [certain_fact] \<and>
   count (certain_problem\<lparr>weights := [1],
            queries := [Term ''lfi_fact_0'' [Term ''x'' [] None] None],
            names := [certain_fact]\<rparr>) = count certain_problem + 1"
proof -
  have l: "learnable_atoms (source certain_problem) = [certain_fact]"
    by (simp add: learnable_atoms_def certain_problem_def init_def certain_fact_def is_query_def
        learnable_def)
  from traversal_slot_count [OF iter_certain, THEN conjunct1]
  have "count (certain_problem\<lparr>weights := [1],
            queries := [Term ''lfi_fact_0'' [Term ''x'' [] None] None],
            names := [certain_fact]\<rparr>) = count certain_problem + 1"
    by (simp add: l)
  with l iter_certain show ?thesis by blast
qed

lemma str_of_nat_1: "str_of_nat (Suc 0) = ''1''"
proof -
  have "str_of_nat 1 = ''1''" by code_simp
  then show ?thesis by simp
qed

lemma iter_certain_again:
  "iter_program demo_engine
        (certain_problem\<lparr>weights := [1],
            queries := [Term ''lfi_fact_0'' [Term ''x'' [] None] None],
            names := [certain_fact]\<rparr>) =
     Inr ([Fact (Term ''lfi_fact_1'' [Term ''x'' [] None] (Some (Term ''lfi'' [Constant (IntC 1)] None))),
           Clause (Term ''p'' [Term ''x'' [] None] None) (Term ''lfi_fact_1'' [Term ''x'' [] None] None),
           Fact (Term ''query'' [Term ''lfi_fact_1'' [Term ''x'' [] None] None] None)],
          certain_problem\<lparr>weights := [1, 1],
            queries := [Term ''lfi_fact_0'' [Term ''x'' [] None] None, Term ''lfi_fact_1'' [Term ''x'' [] None] None],
            names := [certain_fact, certain_fact]\<rparr>)"
  by (simp add: iter_program_def certain_problem_def init_def certain_fact_def is_query_def arity_def
      process_atom_def learnable_def count_def lfi_fact_of_def lfi_prob_of_def str_of_nat_1
      float_of_const_def Let_def)

text \<open>
  C3 as stated has every later traversal yield the same slot assignment. The second
  traversal of \<^verbatim>\<open>t(1.0)::p(x).\<close> rewrites the same source atom to
  \<^verbatim>\<open>lfi(1)::lfi_fact_1(x)\<close> and leaves two slots.
\<close>

theorem second_traversal_counterexample:
  "map_sum id (\<lambda>(out, s'). (out, weights s')) (iter_program demo_engine certain_problem) =
     Inr ([Fact (Term ''lfi_fact_0'' [Term ''x'' [] None] (Some (Term ''lfi'' [Constant (IntC 0)] None))),
           Clause (Term ''p'' [Term ''x'' [] None] None) (Term ''lfi_fact_0'' [Term ''x'' [] None] None),
           Fact (Term ''query'' [Term ''lfi_fact_0'' [Term ''x'' [] None] None] None)],
          [1]) \<and>
   map_sum id (\<lambda>(out, s'). (out, weights s'))
     (iter_program demo_engine
        (certain_problem\<lparr>weights := [1],
            queries := [Term ''lfi_fact_0'' [Term ''x'' [] None] None],
            names := [certain_fact]\<rparr>)) =
     Inr ([Fact (Term ''lfi_fact_1'' [Term ''x'' [] None] (Some (Term ''lfi'' [Constant (IntC 1)] None))),
           Clause (Term ''p'' [Term ''x'' [] None] None) (Term ''lfi_fact_1'' [Term ''x'' [] None] None),
           Fact (Term ''query'' [Term ''lfi_fact_1'' [Term ''x'' [] None] None] None)],
          [1, 1])"
  unfolding iter_certain iter_certain_again by simp

subsection \<open>The example compiler\<close>

lemma sort_Nil_iff: "sort e = [] \<longleftrightarrow> e = []"
  by (metis length_sort length_0_conv)

lemma group_append_map_of:
  "map_of (group_append acc k v) =
     (map_of acc)(k \<mapsto> (case map_of acc k of None \<Rightarrow> [v] | Some vs \<Rightarrow> vs @ [v]))"
  by (auto simp: group_append_def update_conv' fun_eq_iff map_add_def split: option.splits)

lemma group_append_distinct:
  "distinct (map fst acc) \<Longrightarrow> distinct (map fst (group_append acc k v))"
proof (cases "map_of acc k")
  case None
  assume d: "distinct (map fst acc)"
  from None have "k \<notin> fst ` set acc" by (simp add: map_of_eq_None_iff)
  with d None show ?thesis by (simp add: group_append_def)
next
  case (Some vs)
  assume "distinct (map fst acc)"
  with Some show ?thesis by (simp add: group_append_def distinct_update)
qed

lemma group_examples_char:
  "\<forall>e \<in> set exs. e \<noteq> [] \<Longrightarrow> distinct (map fst acc) \<Longrightarrow>
   \<exists>groups. group_examples acc exs = Inr groups \<and> distinct (map fst groups) \<and>
     (\<forall>k. map_of groups k =
        (case map_of acc k of
           None \<Rightarrow> (if values_for k exs = [] then None else Some (values_for k exs))
         | Some vs \<Rightarrow> Some (vs @ values_for k exs)))"
proof (induction exs arbitrary: acc)
  case Nil
  then show ?case by (simp add: values_for_def split: option.splits)
next
  case (Cons e exs)
  from Cons.prems have ne: "sort e \<noteq> []" and rest: "\<forall>e \<in> set exs. e \<noteq> []"
    by (simp_all add: sort_Nil_iff)
  let ?acc = "group_append acc (map fst (sort e)) (map snd (sort e))"
  from Cons.IH [OF rest group_append_distinct [OF Cons.prems(2)], of "map fst (sort e)" "map snd (sort e)"]
  obtain groups where g: "group_examples ?acc exs = Inr groups" and d: "distinct (map fst groups)"
    and m: "\<forall>k. map_of groups k =
        (case map_of ?acc k of
           None \<Rightarrow> (if values_for k exs = [] then None else Some (values_for k exs))
         | Some vs \<Rightarrow> Some (vs @ values_for k exs))"
    by blast
  have "group_examples acc (e # exs) = Inr groups"
    using g ne by (simp add: Let_def)
  moreover have "\<forall>k. map_of groups k =
        (case map_of acc k of
           None \<Rightarrow> (if values_for k (e # exs) = [] then None else Some (values_for k (e # exs)))
         | Some vs \<Rightarrow> Some (vs @ values_for k (e # exs)))"
  proof
    fix k
    show "map_of groups k =
        (case map_of acc k of
           None \<Rightarrow> (if values_for k (e # exs) = [] then None else Some (values_for k (e # exs)))
         | Some vs \<Rightarrow> Some (vs @ values_for k (e # exs)))"
      using m [rule_format, of k]
      by (cases "map fst (sort e) = k")
         (auto simp: group_append_map_of values_for_def split: option.splits)
  qed
  ultimately show ?case using d by blast
qed

lemma group_examples_empty:
  "[] \<in> set exs \<Longrightarrow> group_examples acc exs = Inl ValueError"
proof (induction exs arbitrary: acc)
  case Nil
  then show ?case by simp
next
  case (Cons e exs)
  show ?case
  proof (cases "e = []")
    case True
    then show ?thesis by simp
  next
    case False
    with Cons.prems have "[] \<in> set exs" by auto
    from Cons.IH [OF this] False show ?thesis by (simp add: Let_def sort_Nil_iff)
  qed
qed

lemma process_atom_engine:
  "process_atom (eng\<lparr>ground := g, createFrom := c\<rparr>) s atom = process_atom eng s atom"
  by (simp add: process_atom_def Let_def split: pterm.splits)

lemma process_heads_engine:
  "process_heads (eng\<lparr>ground := g, createFrom := c\<rparr>) s hs = process_heads eng s hs"
  by (induction hs arbitrary: s) (auto simp: process_atom_engine split: sum.splits)

lemma iter_statement_engine:
  "iter_statement (eng\<lparr>ground := g, createFrom := c\<rparr>) s st = iter_statement eng s st"
  by (cases st) (auto simp: process_atom_engine process_heads_engine split: sum.splits)

lemma iter_statements_engine:
  "iter_statements (eng\<lparr>ground := g, createFrom := c\<rparr>) s sts = iter_statements eng s sts"
  by (induction sts arbitrary: s) (auto simp: iter_statement_engine split: sum.splits)

lemma compile_examples_empty:
  assumes "[] \<in> set (examples s)"
  shows "compile_examples eng s =
     (case iter_program eng s of
        Inl e \<Rightarrow> Inl e
      | Inr (clauses, s1) \<Rightarrow>
          (case engine_prepare eng clauses of Inl e \<Rightarrow> Inl e | Inr bp \<Rightarrow> Inl ValueError))"
proof (cases "iter_program eng s")
  case (Inl e)
  then show ?thesis by (simp add: compile_examples_def)
next
  case (Inr p)
  obtain clauses s1 where p: "p = (clauses, s1)" by (cases p)
  from Inr p have "iter_statements eng s (source s) = Inr (clauses, s1)"
    by (simp add: iter_program_def)
  from iter_statements_keeps [OF this] assms have "[] \<in> set (examples s1)" by simp
  then have "process_examples s1 = Inl ValueError"
    by (simp add: process_examples_def group_examples_empty)
  then show ?thesis
    by (simp add: compile_examples_def Inr p split: sum.splits)
qed

text \<open>
  C10. When every example has at least one pair, \<^verbatim>\<open>_process_examples\<close> returns; the
  keys of its result are distinct, and under the key \<open>k\<close> it holds exactly the value
  tuples of the examples whose sorted atom tuple is \<open>k\<close>, in order (no entry when
  there is none), so that every example lies in the one group of its key. When some
  example is empty, \<^verbatim>\<open>_process_examples\<close> raises \<^verbatim>\<open>ValueError\<close>, and
  \<^verbatim>\<open>_compile_examples\<close> raises with it as soon as the traversal of the program and
  the engine's \<^verbatim>\<open>prepare\<close> have returned: its result is the same whatever
  \<^verbatim>\<open>ground\<close> and \<^verbatim>\<open>createFrom\<close> are, neither is reached.
\<close>

theorem grouping_total_on_nonempty:
  "((\<forall>e \<in> set (examples s). e \<noteq> []) \<longrightarrow>
      (\<exists>groups. process_examples s = Inr groups \<and> distinct (map fst groups) \<and>
         (\<forall>k. map_of groups k =
            (if values_for k (examples s) = [] then None else Some (values_for k (examples s)))))) \<and>
   ([] \<in> set (examples s) \<longrightarrow>
      process_examples s = Inl ValueError \<and>
      compile_examples eng s =
        (case iter_program eng s of
           Inl e \<Rightarrow> Inl e
         | Inr (clauses, s1) \<Rightarrow>
             (case engine_prepare eng clauses of Inl e \<Rightarrow> Inl e | Inr bp \<Rightarrow> Inl ValueError)) \<and>
      (\<forall>g c. compile_examples (eng\<lparr>ground := g, createFrom := c\<rparr>) s = compile_examples eng s))"
proof (intro conjI impI)
  assume "\<forall>e \<in> set (examples s). e \<noteq> []"
  from group_examples_char [OF this, of "[]"]
  show "\<exists>groups. process_examples s = Inr groups \<and> distinct (map fst groups) \<and>
         (\<forall>k. map_of groups k =
            (if values_for k (examples s) = [] then None else Some (values_for k (examples s))))"
    by (simp add: process_examples_def)
next
  assume "[] \<in> set (examples s)"
  then show "process_examples s = Inl ValueError"
    by (simp add: process_examples_def group_examples_empty)
next
  assume "[] \<in> set (examples s)"
  then show "compile_examples eng s =
        (case iter_program eng s of
           Inl e \<Rightarrow> Inl e
         | Inr (clauses, s1) \<Rightarrow>
             (case engine_prepare eng clauses of Inl e \<Rightarrow> Inl e | Inr bp \<Rightarrow> Inl ValueError))"
    by (rule compile_examples_empty)
next
  assume e: "[] \<in> set (examples s)"
  show "\<forall>g c. compile_examples (eng\<lparr>ground := g, createFrom := c\<rparr>) s = compile_examples eng s"
  proof (intro allI)
    fix g c
    show "compile_examples (eng\<lparr>ground := g, createFrom := c\<rparr>) s = compile_examples eng s"
      unfolding compile_examples_empty [OF e]
      by (simp add: iter_program_def iter_statements_engine split: sum.splits)
  qed
qed

theorem grouping_total_on_nonempty_witness:
  "examples ungroundable_problem = [[(0, True)], [(1, True)]] \<and>
   (\<exists>groups. process_examples ungroundable_problem = Inr groups \<and>
      map_of groups [0] = Some [[True]] \<and> map_of groups [1] = Some [[True]] \<and>
      map_of groups [2] = None) \<and>
   [] \<in> set (examples empty_example_problem) \<and>
   process_examples empty_example_problem = Inl ValueError \<and>
   compile_examples demo_engine empty_example_problem = Inl ValueError"
proof -
  have ex: "examples ungroundable_problem = [[(0, True)], [(1, True)]]"
    by (simp add: ungroundable_problem_def init_def)
  have h1: "\<forall>e \<in> set (examples ungroundable_problem). e \<noteq> []"
    by (simp add: ex)
  have h2: "[] \<in> set (examples empty_example_problem)"
    by (simp add: empty_example_problem_def init_def)
  note t1 = grouping_total_on_nonempty [of ungroundable_problem demo_engine, THEN conjunct1, THEN mp, OF h1]
  note t2 = grouping_total_on_nonempty [of empty_example_problem demo_engine, THEN conjunct2, THEN mp, OF h2]
  from t1 obtain groups where g: "process_examples ungroundable_problem = Inr groups"
    and m: "\<forall>k. map_of groups k =
            (if values_for k (examples ungroundable_problem) = [] then None
             else Some (values_for k (examples ungroundable_problem)))"
    by blast
  have v: "values_for [0] (examples ungroundable_problem) = [[True]]"
    "values_for [1] (examples ungroundable_problem) = [[True]]"
    "values_for [2] (examples ungroundable_problem) = []"
    by (simp_all add: ex values_for_def)
  from m v have a: "map_of groups [0] = Some [[True]] \<and> map_of groups [1] = Some [[True]] \<and>
      map_of groups [2] = None"
    by simp
  have it: "\<exists>out s1. iter_program demo_engine empty_example_problem = Inr (out, s1)"
    by (simp add: iter_program_def empty_example_problem_def init_def certain_fact_def is_query_def arity_def
      process_atom_def learnable_def count_def lfi_fact_of_def lfi_prob_of_def
      float_of_const_def Let_def)
  have ep: "\<And>cl. engine_prepare demo_engine cl = Inr cl" by (simp add: demo_engine_def)
  from t2 have p: "process_examples empty_example_problem = Inl ValueError" by blast
  from t2 it ep have c: "compile_examples demo_engine empty_example_problem = Inl ValueError"
    by auto
  from ex g a h2 p c show ?thesis by blast
qed

lemma compile_group_fails:
  "example \<in> set exs \<Longrightarrow> \<forall>gp. isl (ground eng bp gp (zip atoms example)) \<Longrightarrow>
   isl (compile_group eng bp atoms gp exs result)"
proof (induction exs arbitrary: gp result)
  case Nil
  then show ?case by simp
next
  case (Cons x exs)
  show ?case
  proof (cases "x = example")
    case True
    with Cons.prems(2) [rule_format, of gp] show ?thesis
      by (auto simp: isl_def)
  next
    case False
    with Cons.prems have "example \<in> set exs" by simp
    from Cons.IH [OF this Cons.prems(2)] show ?thesis
      by (auto split: sum.splits)
  qed
qed

lemma compile_groups_fails:
  "(atoms, example_group) \<in> set groups \<Longrightarrow> example \<in> set example_group \<Longrightarrow>
   \<forall>gp. isl (ground eng bp gp (zip atoms example)) \<Longrightarrow>
   isl (compile_groups eng bp groups result)"
proof (induction groups arbitrary: result)
  case Nil
  then show ?case by simp
next
  case (Cons grp groups)
  obtain ats vals where grp: "grp = (ats, vals)" by (cases grp)
  show ?case
  proof (cases "grp = (atoms, example_group)")
    case True
    with grp have "ats = atoms" "vals = example_group" by simp_all
    with compile_group_fails [OF Cons.prems(2) Cons.prems(3), of None result] show ?thesis
      by (auto simp: grp isl_def)
  next
    case False
    with Cons.prems have "(atoms, example_group) \<in> set groups" by simp
    from Cons.IH [OF this Cons.prems(2) Cons.prems(3)] show ?thesis
      by (auto simp: grp split: sum.splits)
  qed
qed

lemma group_of_example:
  assumes "group_examples [] exs = Inr groups" and "e \<in> set exs"
  shows "\<exists>vs. (map fst (sort e), vs) \<in> set groups \<and> map snd (sort e) \<in> set vs"
proof -
  have ne: "\<forall>e \<in> set exs. e \<noteq> []"
  proof (rule ccontr)
    assume "\<not> (\<forall>e \<in> set exs. e \<noteq> [])"
    then have "[] \<in> set exs" by auto
    from group_examples_empty [OF this, of "[]"] assms(1) show False by simp
  qed
  from group_examples_char [OF ne, of "[]"] assms(1)
  have m: "\<forall>k. map_of groups k = (if values_for k exs = [] then None else Some (values_for k exs))"
    by auto
  have v: "map snd (sort e) \<in> set (values_for (map fst (sort e)) exs)"
    using assms(2) by (auto simp: values_for_def)
  then have "values_for (map fst (sort e)) exs \<noteq> []" by auto
  with m have "map_of groups (map fst (sort e)) = Some (values_for (map fst (sort e)) exs)" by simp
  then have "(map fst (sort e), values_for (map fst (sort e)) exs) \<in> set groups"
    by (rule map_of_SomeD)
  with v show ?thesis by blast
qed

text \<open>
  C8, as the code has it. If grounding fails for one example (whatever the base
  program and the ground program handed on), the failure is not confined to that
  example: \<^verbatim>\<open>_compile_examples\<close> raises, no compiled example is stored, and
  \<^verbatim>\<open>prepare\<close> and the whole \<^verbatim>\<open>run\<close> end with an error.
\<close>

theorem grounding_failure_aborts:
  assumes "e \<in> set (examples s)" and "\<forall>bp gp. isl (ground eng bp gp (sort e))"
  shows "isl (compile_examples eng s) \<and> isl (prepare eng s) \<and> isl (run eng s)"
proof -
  have c: "isl (compile_examples eng s)"
  proof (cases "iter_program eng s")
    case (Inl x)
    then show ?thesis by (simp add: compile_examples_def)
  next
    case (Inr p)
    obtain clauses s1 where p: "p = (clauses, s1)" by (cases p)
    from Inr p have "iter_statements eng s (source s) = Inr (clauses, s1)"
      by (simp add: iter_program_def)
    from iter_statements_keeps [OF this] assms(1) have e1: "e \<in> set (examples s1)" by simp
    show ?thesis
    proof (cases "engine_prepare eng clauses")
      case (Inl x)
      then show ?thesis by (simp add: compile_examples_def Inr p)
    next
      case bp: (Inr bp)
      show ?thesis
      proof (cases "process_examples s1")
        case (Inl x)
        then show ?thesis by (simp add: compile_examples_def Inr p bp)
      next
        case g: (Inr groups)
        then have "group_examples [] (examples s1) = Inr groups" by (simp add: process_examples_def)
        from group_of_example [OF this e1] obtain vs where
          m: "(map fst (sort e), vs) \<in> set groups" and v: "map snd (sort e) \<in> set vs" by blast
        have "\<forall>gp. isl (ground eng bp gp (zip (map fst (sort e)) (map snd (sort e))))"
          using assms(2) by (simp add: zip_map_fst_snd)
        from compile_groups_fails [OF m v this, of "[]"]
        show ?thesis by (auto simp: compile_examples_def Inr p bp g isl_def)
      qed
    qed
  qed
  then show ?thesis by (auto simp: prepare_def run_def isl_def)
qed

theorem grounding_failure_aborts_witness:
  "[(1, True)] \<in> set (examples ungroundable_problem) \<and>
   (\<forall>bp gp. isl (ground demo_engine bp gp (sort [(1, True)]))) \<and>
   isl (compile_examples demo_engine ungroundable_problem) \<and>
   isl (prepare demo_engine ungroundable_problem) \<and>
   isl (run demo_engine ungroundable_problem)"
proof -
  have h1: "[(1, True)] \<in> set (examples ungroundable_problem)"
    by (simp add: ungroundable_problem_def init_def)
  have h2: "\<forall>bp gp. isl (ground demo_engine bp gp (sort [(1, True)]))"
    by (simp add: demo_engine_def)
  from grounding_failure_aborts [OF h1 h2] h1 h2 show ?thesis by blast
qed

text \<open>
  C8 as stated has the failing example skipped and the others prepared. With the two
  examples \<open>[(0, True)]\<close> and \<open>[(1, True)]\<close>, of which the engine grounds the first
  and not the second, preparation and the run end with the engine's error.
\<close>

theorem skip_failed_example_counterexample:
  "ground demo_engine [] None [(0, True)] = Inr () \<and>
   ground demo_engine [] None [(1, True)] = Inl GroundingError \<and>
   compile_examples demo_engine ungroundable_problem = Inl GroundingError \<and>
   run demo_engine ungroundable_problem = Inl GroundingError"
proof -
  have it: "iter_program demo_engine ungroundable_problem =
     Inr ([Fact (Term ''lfi_fact_0'' [Term ''x'' [] None] (Some (Term ''lfi'' [Constant (IntC 0)] None))),
           Clause (Term ''p'' [Term ''x'' [] None] None) (Term ''lfi_fact_0'' [Term ''x'' [] None] None),
           Fact (Term ''query'' [Term ''lfi_fact_0'' [Term ''x'' [] None] None] None)],
          ungroundable_problem\<lparr>weights := [1],
            queries := [Term ''lfi_fact_0'' [Term ''x'' [] None] None],
            names := [certain_fact]\<rparr>)"
    by (simp add: iter_program_def ungroundable_problem_def init_def certain_fact_def is_query_def arity_def
      process_atom_def learnable_def count_def lfi_fact_of_def lfi_prob_of_def str_of_nat_0
      float_of_const_def Let_def)
  have c: "compile_examples demo_engine ungroundable_problem = Inl GroundingError"
    by (simp add: compile_examples_def it)
       (simp add: demo_engine_def ungroundable_problem_def init_def group_append_def process_examples_def)
  then show ?thesis by (simp add: run_def prepare_def) (simp add: demo_engine_def)
qed

end
